theory Spec2Isabelle
  imports Main "HOL-Library.Word"
begin

unbundle bit_operations_syntax

section \<open>ZIP extraction (\<^verbatim>\<open>src/vs/base/node/zip.ts\<close>): the embedding\<close>

subsection \<open>Errors\<close>

text \<open>
  \<^verbatim>\<open>enum ExtractErrorType { Undefined, CorruptZip }\<close> and the class
  \<^verbatim>\<open>ExtractError extends Error\<close> with its fields \<^verbatim>\<open>type\<close> and \<^verbatim>\<open>cause\<close>.
  A JavaScript error value is either a plain \<^verbatim>\<open>Error\<close> carrying a message, or an
  \<^verbatim>\<open>ExtractError\<close> carrying its type, its message and the error it was built from.
\<close>

datatype ExtractErrorType = Undefined | CorruptZip

datatype error =
    Error (message: string)
  | ExtractError (type: ExtractErrorType) (message: string) (cause: error)

text \<open>
  The constructor of \<^verbatim>\<open>ExtractError\<close>: the message starts as the cause's message and the
  \<^verbatim>\<open>switch\<close> prefixes it for \<^verbatim>\<open>CorruptZip\<close> only.
\<close>

definition new_ExtractError :: "ExtractErrorType \<Rightarrow> error \<Rightarrow> error" where
  "new_ExtractError ty cause_err =
     (let msg = message cause_err;
          msg' = (case ty of CorruptZip \<Rightarrow> ''Corrupt ZIP: '' @ msg | Undefined \<Rightarrow> msg)
      in ExtractError ty msg' cause_err)"

text \<open>
  \<^verbatim>\<open>RegExp.prototype.test\<close> for a pattern made of ordinary characters only: the
  pattern occurs somewhere in the subject.
\<close>

fun startsWith :: "string \<Rightarrow> string \<Rightarrow> bool" where
  "startsWith s [] = True"
| "startsWith [] (p # ps) = False"
| "startsWith (c # s) (p # ps) = (c = p \<and> startsWith s ps)"

fun test_literal :: "string \<Rightarrow> string \<Rightarrow> bool" where
  "test_literal pat [] = startsWith [] pat"
| "test_literal pat (c # s) = (startsWith (c # s) pat \<or> test_literal pat s)"

definition toExtractError :: "error \<Rightarrow> error" where
  "toExtractError err =
     (let ty = CorruptZip;
          ty' = (if test_literal ''end of central directory record signature not found'' (message err)
                 then CorruptZip else ty)
      in new_ExtractError ty' err)"

subsection \<open>Archive entries and their mode\<close>

text \<open>
  The two fields of yauzl's \<^verbatim>\<open>Entry\<close> that the module reads. The attribute word is the
  unsigned 32-bit field of the central directory record.
\<close>

record Entry =
  fileName :: string
  externalFileAttributes :: "32 word"

text \<open>
  \<^verbatim>\<open>entry.externalFileAttributes >> 16 || 33188\<close>: JavaScript's \<^verbatim>\<open>>>\<close> converts its
  operand to a signed 32-bit integer and shifts arithmetically; \<^verbatim>\<open>||\<close> replaces the
  value 0. Each \<^verbatim>\<open>&\<close> again yields a signed 32-bit integer, and \<^verbatim>\<open>reduce\<close> sums these
  numbers from the left, starting from \<^verbatim>\<open>attr & 61440\<close>.
\<close>

definition modeFromEntry :: "Entry \<Rightarrow> int" where
  "modeFromEntry entry =
     (let shifted = signed_drop_bit 16 (externalFileAttributes entry);
          attr = (if shifted = 0 then 33188 else shifted)
      in foldl (\<lambda>a b. a + b) (sint (attr AND 61440))
           (map (\<lambda>mask. sint (attr AND mask)) [448, 56, 7]))"

subsection \<open>The source-path pattern\<close>

text \<open>
  \<^verbatim>\<open>extract\<close> builds \<^verbatim>\<open>new RegExp(options.sourcePath ? `^${options.sourcePath}` : '')\<close>:
  the option is spliced into the pattern as it is, so its characters are read as
  pattern syntax. The fragment of JavaScript's pattern language modelled here is: an
  optional leading \<^verbatim>\<open>^\<close>, then ordinary characters, which match themselves, and the dot,
  which matches any character but a line terminator. Every other character with a
  meaning in patterns is outside the fragment: such a pattern compiles to \<open>None\<close>.
\<close>

datatype atom = Lit char | AnyChar

datatype RegExp = RegExp (anchored: bool) (atoms: "atom list")

definition syntax_char :: "char \<Rightarrow> bool" where
  "syntax_char c = (c \<in> set [CHR 0x5C, CHR ''^'', CHR ''$'', CHR ''*'', CHR ''+'', CHR ''?'',
     CHR ''('', CHR '')'', CHR ''['', CHR '']'', CHR ''{'', CHR ''}'', CHR ''|''])"

fun compile_atoms :: "string \<Rightarrow> atom list option" where
  "compile_atoms [] = Some []"
| "compile_atoms (c # cs) =
     (if c = CHR ''.'' then map_option ((#) AnyChar) (compile_atoms cs)
      else if syntax_char c then None
      else map_option ((#) (Lit c)) (compile_atoms cs))"

definition new_RegExp :: "string \<Rightarrow> RegExp option" where
  "new_RegExp pattern =
     (case pattern of
        [] \<Rightarrow> Some (RegExp False [])
      | c # cs \<Rightarrow>
          if c = CHR ''^'' then map_option (RegExp True) (compile_atoms cs)
          else map_option (RegExp False) (compile_atoms pattern))"

definition line_terminator :: "char \<Rightarrow> bool" where
  "line_terminator c = (c = CHR 0x0A \<or> c = CHR 0x0D)"

fun atom_matches :: "atom \<Rightarrow> char \<Rightarrow> bool" where
  "atom_matches (Lit p) c = (c = p)"
| "atom_matches AnyChar c = (\<not> line_terminator c)"

text \<open>A match of the atoms at the start of the subject leaves the rest of the subject.\<close>

fun match_here :: "atom list \<Rightarrow> string \<Rightarrow> string option" where
  "match_here [] s = Some s"
| "match_here (a # as) [] = None"
| "match_here (a # as) (c # s) = (if atom_matches a c then match_here as s else None)"

text \<open>The leftmost match: the text before it and the text after it.\<close>

fun search :: "atom list \<Rightarrow> string \<Rightarrow> (string \<times> string) option" where
  "search as [] = map_option (Pair []) (match_here as [])"
| "search as (c # s) =
     (case match_here as (c # s) of
        Some r \<Rightarrow> Some ([], r)
      | None \<Rightarrow> map_option (\<lambda>(b, r). (c # b, r)) (search as s))"

definition exec :: "RegExp \<Rightarrow> string \<Rightarrow> (string \<times> string) option" where
  "exec re s =
     (if anchored re then map_option (Pair []) (match_here (atoms re) s)
      else search (atoms re) s)"

text \<open>\<^verbatim>\<open>re.test(s)\<close> and \<^verbatim>\<open>s.replace(re, '')\<close> for a pattern without the global flag.\<close>

definition test :: "RegExp \<Rightarrow> string \<Rightarrow> bool" where
  "test re s = (exec re s \<noteq> None)"

definition replace_empty :: "string \<Rightarrow> RegExp \<Rightarrow> string" where
  "replace_empty s re = (case exec re s of None \<Rightarrow> s | Some (b, r) \<Rightarrow> b @ r)"

text \<open>\<^verbatim>\<open>interface IExtractOptions\<close>; an absent \<^verbatim>\<open>overwrite\<close> is falsy.\<close>

record IExtractOptions =
  overwrite :: bool
  sourcePath :: "string option"

text \<open>
  The pattern text of \<^verbatim>\<open>extract\<close>: an absent and an empty \<^verbatim>\<open>sourcePath\<close> are both falsy
  and give the empty pattern.
\<close>

definition sourcePathRegex :: "string option \<Rightarrow> RegExp option" where
  "sourcePathRegex sp =
     new_RegExp (case sp of None \<Rightarrow> [] | Some p \<Rightarrow> if p = [] then [] else CHR ''^'' # p)"

text \<open>
  Lines 103 to 107 of \<^verbatim>\<open>extractZip\<close>: an entry whose name the pattern does not match is
  skipped; otherwise its output name is the entry name with the match removed.
\<close>

definition entry_filter :: "RegExp \<Rightarrow> string \<Rightarrow> string option" where
  "entry_filter re entryName =
     (if \<not> test re entryName then None else Some (replace_empty entryName re))"

text \<open>\<^verbatim>\<open>/\/$/.test(fileName)\<close>: the name ends with a slash.\<close>

definition ends_with_slash :: "string \<Rightarrow> bool" where
  "ends_with_slash s = (case rev s of [] \<Rightarrow> False | c # _ \<Rightarrow> c = CHR ''/'')"

subsection \<open>Promises, operations and the calls made on collaborators\<close>

text \<open>
  A \<^verbatim>\<open>TPromise\<close> settles once: it is pending, completed with a value, failed with an
  error, or cancelled. How an asynchronous operation ends is an \<open>outcome\<close>.
\<close>

datatype 'a promise = Pending | Completed 'a | Failed error | Cancelled

datatype outcome = Success | Failure error

fun of_outcome :: "outcome \<Rightarrow> unit promise" where
  "of_outcome Success = Completed ()"
| "of_outcome (Failure err) = Failed err"

text \<open>
  The functions \<^verbatim>\<open>c\<close> and \<^verbatim>\<open>e\<close> handed to the body of \<^verbatim>\<open>new TPromise\<close>: they settle
  the promise when it is pending and do nothing afterwards.
\<close>

definition settle :: "'a promise \<Rightarrow> 'a promise \<Rightarrow> 'a promise" where
  "settle p new = (if p = Pending then new else p)"

text \<open>
  Paths are kept as the source builds them: \<^verbatim>\<open>path.join(targetPath, fileName)\<close> and
  \<^verbatim>\<open>path.join(targetPath, path.dirname(fileName))\<close>.
\<close>

datatype target = Join string string | JoinDirname string string

text \<open>The calls the module makes on the archive, the file system and the throttler.\<close>

datatype call =
    OpenZip string
  | Rimraf string
  | Mkdirp target
  | OpenReadStream string
  | ThrottlerQueue string int
  | CancelLast "nat option"
  | ZipfileClose
  | CreateWriteStream target int
  | Pipe
  | IstreamClose

text \<open>
  The asynchronous operations \<^verbatim>\<open>extractZip\<close> schedules: a directory creation
  \<^verbatim>\<open>mkdirp(path.join(targetPath, fileName))\<close>, which runs at once, and a file extraction
  \<^verbatim>\<open>extractEntry(stream, fileName, mode, targetPath, options)\<close> handed to the throttler.
  An operation is numbered by its position in the order of scheduling.
\<close>

datatype operation = MkdirpOp string string | ExtractOp string int string

datatype op_state = Queued | Running | Settled outcome | CancelledOp

fun is_ExtractOp :: "operation \<Rightarrow> bool" where
  "is_ExtractOp (ExtractOp name mode dir) = True"
| "is_ExtractOp (MkdirpOp dir name) = False"

subsection \<open>The extraction driver \<^verbatim>\<open>extractZip\<close>\<close>

text \<open>
  The state of one call of \<^verbatim>\<open>extractZip\<close>: the variables \<^verbatim>\<open>isCanceled\<close> and \<^verbatim>\<open>last\<close>
  (\<open>None\<close> is the initial \<^verbatim>\<open>TPromise.wrap(null)\<close>, \<open>Some i\<close> the promise of operation
  \<open>i\<close>), the promise built by \<^verbatim>\<open>new TPromise((c, e) => ...)\<close>, whether the two
  \<^verbatim>\<open>once\<close> handlers are still registered, the operation that \<^verbatim>\<open>last.then(c, e)\<close> waits
  for, the operations scheduled so far with their states, the throttler, and the calls
  made so far.
\<close>

record extraction =
  isCanceled :: bool
  last_op :: "nat option"
  promise :: "unit promise"
  once_error :: bool
  once_close :: bool
  joined :: "nat option"
  ops :: "(operation \<times> op_state) list"
  thr_running :: bool
  thr_queue :: "nat list"
  started :: "nat list"
  calls :: "call list"

definition init :: extraction where
  "init = \<lparr>isCanceled = False, last_op = None, promise = Pending, once_error = True,
     once_close = True, joined = None, ops = [], thr_running = False, thr_queue = [],
     started = [], calls = []\<rparr>"

definition op_state_of :: "extraction \<Rightarrow> nat \<Rightarrow> op_state option" where
  "op_state_of s i = (if i < length (ops s) then Some (snd (ops s ! i)) else None)"

definition set_op_state :: "nat \<Rightarrow> op_state \<Rightarrow> extraction \<Rightarrow> extraction" where
  "set_op_state i st s = s\<lparr>ops := (ops s)[i := (fst (ops s ! i), st)]\<rparr>"

text \<open>
  Modelled from the spec: \<^verbatim>\<open>SimpleThrottler\<close> of \<^verbatim>\<open>vs/base/common/async\<close> is not among
  the sources. The spec's Write Throttler keeps a FIFO of tasks that have not started and
  a flag "currently running"; a task queued while idle starts at once, one queued while
  busy is appended; when the running task ends, the next queued task is taken from the
  front and started, and the flag is cleared when the queue is empty. \<open>started\<close>
  records the order in which task bodies were started.
\<close>

definition throttler_queue :: "operation \<Rightarrow> extraction \<Rightarrow> extraction" where
  "throttler_queue task s =
     (let i = length (ops s) in
      if thr_running s
      then s\<lparr>ops := ops s @ [(task, Queued)], thr_queue := thr_queue s @ [i]\<rparr>
      else s\<lparr>ops := ops s @ [(task, Running)], thr_running := True,
             started := started s @ [i]\<rparr>)"

definition throttler_next :: "extraction \<Rightarrow> extraction" where
  "throttler_next s =
     (case thr_queue s of
        [] \<Rightarrow> s\<lparr>thr_running := False\<rparr>
      | j # q \<Rightarrow> (set_op_state j Running s)\<lparr>thr_queue := q, started := started s @ [j]\<rparr>)"

text \<open>The handler of the archive's \<^verbatim>\<open>entry\<close> event (lines 98 to 120).\<close>

definition on_entry :: "string \<Rightarrow> RegExp \<Rightarrow> Entry \<Rightarrow> extraction \<Rightarrow> extraction" where
  "on_entry targetPath re entry s =
     (if isCanceled s then s
      else if \<not> test re (fileName entry) then s
      else
        let name = replace_empty (fileName entry) re in
        if ends_with_slash name
        then s\<lparr>last_op := Some (length (ops s)),
               ops := ops s @ [(MkdirpOp targetPath name, Running)],
               calls := calls s @ [Mkdirp (Join targetPath name)]\<rparr>
        else
          let mode = modeFromEntry entry;
              s1 = s\<lparr>calls := calls s @ [OpenReadStream (fileName entry), ThrottlerQueue name mode]\<rparr>;
              s2 = throttler_queue (ExtractOp name mode targetPath) s1
          in s2\<lparr>last_op := Some (length (ops s))\<rparr>)"

text \<open>
  The handler of the archive's \<^verbatim>\<open>close\<close> event, \<^verbatim>\<open>() => last.then(c, e)\<close>, registered
  with \<^verbatim>\<open>once\<close>: it reads \<^verbatim>\<open>last\<close> when the event arrives. A promise that has settled
  calls back with its value; a promise that has not is waited for.
\<close>

definition canceled_error :: error where
  "canceled_error = Error ''Canceled''"

definition on_close :: "extraction \<Rightarrow> extraction" where
  "on_close s =
     (if \<not> once_close s then s
      else
        let s1 = s\<lparr>once_close := False\<rparr> in
        case last_op s1 of
          None \<Rightarrow> s1\<lparr>promise := settle (promise s1) (Completed ())\<rparr>
        | Some i \<Rightarrow>
            (case op_state_of s1 i of
               Some (Settled out) \<Rightarrow> s1\<lparr>promise := settle (promise s1) (of_outcome out)\<rparr>
             | Some CancelledOp \<Rightarrow> s1\<lparr>promise := settle (promise s1) (Failed canceled_error)\<rparr>
             | _ \<Rightarrow> s1\<lparr>joined := Some i\<rparr>))"

text \<open>The handler of the archive's \<^verbatim>\<open>error\<close> event, \<^verbatim>\<open>e\<close>, registered with \<^verbatim>\<open>once\<close>.\<close>

definition on_error :: "error \<Rightarrow> extraction \<Rightarrow> extraction" where
  "on_error err s =
     (if \<not> once_error s then s
      else s\<lparr>once_error := False, promise := settle (promise s) (Failed err)\<rparr>)"

text \<open>
  Operation \<open>i\<close> ends with an outcome; only a running operation can. A throttled task
  that ends lets the throttler go on, and the waiting \<^verbatim>\<open>last.then(c, e)\<close> is called back.
\<close>

definition on_settled :: "nat \<Rightarrow> outcome \<Rightarrow> extraction \<Rightarrow> extraction" where
  "on_settled i out s =
     (if op_state_of s i \<noteq> Some Running then s
      else
        let s1 = set_op_state i (Settled out) s;
            s2 = (if is_ExtractOp (fst (ops s ! i)) then throttler_next s1 else s1)
        in if joined s2 = Some i
           then s2\<lparr>joined := None, promise := settle (promise s2) (of_outcome out)\<rparr>
           else s2)"

text \<open>
  \<^verbatim>\<open>last.cancel()\<close>. Modelled from the spec: the promises of \<^verbatim>\<open>mkdirp\<close> and of the
  throttler are not among the sources. A settled operation is left as it is; a running
  one is cancelled, and if it was the throttler's running task the throttler goes on; a
  queued task is taken out of the queue and never started.
\<close>

definition cancel_op :: "nat option \<Rightarrow> extraction \<Rightarrow> extraction" where
  "cancel_op l s =
     (case l of
        None \<Rightarrow> s
      | Some i \<Rightarrow>
          (case op_state_of s i of
             Some Running \<Rightarrow>
               (let s1 = set_op_state i CancelledOp s
                in if is_ExtractOp (fst (ops s ! i)) then throttler_next s1 else s1)
           | Some Queued \<Rightarrow>
               (set_op_state i CancelledOp s)\<lparr>thr_queue := removeAll i (thr_queue s)\<rparr>
           | _ \<Rightarrow> s))"

text \<open>The cancel handler of the promise (lines 121 to 125).\<close>

definition cancel_handler :: "extraction \<Rightarrow> extraction" where
  "cancel_handler s =
     (let s1 = s\<lparr>isCanceled := True\<rparr>;
          s2 = cancel_op (last_op s1) (s1\<lparr>calls := calls s1 @ [CancelLast (last_op s1)]\<rparr>)
      in s2\<lparr>calls := calls s2 @ [ZipfileClose]\<rparr>)"

text \<open>
  Cancelling the promise: a promise that has settled ignores it; a pending one runs its
  cancel handler and ends cancelled.
\<close>

definition on_cancel :: "extraction \<Rightarrow> extraction" where
  "on_cancel s =
     (if promise s \<noteq> Pending then s
      else cancel_handler (s\<lparr>promise := Cancelled\<rparr>))"

text \<open>
  What can happen during an extraction: the archive emits an entry, its close signal or
  an error; the caller cancels; a scheduled operation ends.
\<close>

datatype event = EntryEv Entry | CloseEv | ErrorEv error | CancelEv | SettledEv nat outcome

fun step :: "string \<Rightarrow> RegExp \<Rightarrow> extraction \<Rightarrow> event \<Rightarrow> extraction" where
  "step targetPath re s (EntryEv entry) = on_entry targetPath re entry s"
| "step targetPath re s CloseEv = on_close s"
| "step targetPath re s (ErrorEv err) = on_error err s"
| "step targetPath re s CancelEv = on_cancel s"
| "step targetPath re s (SettledEv i out) = on_settled i out s"

definition run :: "string \<Rightarrow> RegExp \<Rightarrow> extraction \<Rightarrow> event list \<Rightarrow> extraction" where
  "run targetPath re s evs = foldl (step targetPath re) s evs"

text \<open>
  The promise \<^verbatim>\<open>extractZip\<close> returns is the driver's promise followed by
  \<^verbatim>\<open>.then(null, err => TPromise.wrapError(toExtractError(err)))\<close>.
\<close>

fun wrap_errors :: "unit promise \<Rightarrow> unit promise" where
  "wrap_errors (Failed err) = Failed (toExtractError err)"
| "wrap_errors p = p"

definition extractZip :: "string \<Rightarrow> RegExp \<Rightarrow> event list \<Rightarrow> call list \<times> unit promise" where
  "extractZip targetPath re evs =
     (let s = run targetPath re init evs in (calls s, wrap_errors (promise s)))"

text \<open>
  \<^verbatim>\<open>openZip\<close> and \<^verbatim>\<open>extract\<close>. The surroundings of one call: whether yauzl's \<^verbatim>\<open>open\<close>
  calls back with an error, how \<^verbatim>\<open>rimraf\<close> ends when it is called, and what happens while
  the driver runs. The result is the calls made and the state of the returned promise;
  it is \<open>None\<close> when the pattern is outside the modelled fragment. (\<open>extract'\<close> is
  the source's \<^verbatim>\<open>extract\<close>, a word Isabelle reserves.)
\<close>

record surroundings =
  open_error :: "error option"
  rimraf_outcome :: outcome
  events :: "event list"

definition openZip :: "string \<Rightarrow> surroundings \<Rightarrow> call list \<times> unit promise" where
  "openZip zipFile env =
     ([OpenZip zipFile],
      case open_error env of None \<Rightarrow> Completed () | Some err \<Rightarrow> Failed (toExtractError err))"

definition extract' ::
  "string \<Rightarrow> string \<Rightarrow> IExtractOptions \<Rightarrow> surroundings \<Rightarrow> (call list \<times> unit promise) option" where
  "extract' zipPath targetPath options env =
     (case sourcePathRegex (sourcePath options) of
        None \<Rightarrow> None
      | Some re \<Rightarrow>
          Some
            (let (cs, p) = openZip zipPath env;
                 (cs1, p1) =
                   (if overwrite options
                    then (case p of
                            Completed u \<Rightarrow> (cs @ [Rimraf targetPath], of_outcome (rimraf_outcome env))
                          | _ \<Rightarrow> (cs, p))
                    else (cs, p))
             in case p1 of
                  Completed u \<Rightarrow>
                    (let (cs2, p2) = extractZip targetPath re (events env) in (cs1 @ cs2, p2))
                | _ \<Rightarrow> (cs1, p1)))"

subsection \<open>The entry extractor \<^verbatim>\<open>extractEntry\<close>\<close>

text \<open>
  One call of \<^verbatim>\<open>extractEntry\<close>: it calls \<^verbatim>\<open>mkdirp\<close> for the parent directory and
  returns a promise. When \<^verbatim>\<open>mkdirp\<close> succeeds, the body of the inner promise assigns
  \<^verbatim>\<open>istream\<close>, registers the three handlers and pipes the stream. The cancel handler
  closes \<^verbatim>\<open>istream\<close> if it has been assigned. An event that finds no handler
  registered leaves the state as it is.
\<close>

record entry_extraction =
  istream :: bool
  mkdirp_done :: bool
  result :: "unit promise"
  e_calls :: "call list"

datatype entry_event =
    MkdirpEnds outcome
  | IstreamCloseEv
  | IstreamErrorEv error
  | StreamErrorEv error
  | CancelEntry

definition extractEntry :: "string \<Rightarrow> int \<Rightarrow> string \<Rightarrow> entry_extraction" where
  "extractEntry name mode targetPath =
     \<lparr>istream = False, mkdirp_done = False, result = Pending,
      e_calls = [Mkdirp (JoinDirname targetPath name)]\<rparr>"

fun entry_step :: "string \<Rightarrow> int \<Rightarrow> string \<Rightarrow> entry_extraction \<Rightarrow> entry_event \<Rightarrow> entry_extraction" where
  "entry_step name mode targetPath s (MkdirpEnds out) =
     (if mkdirp_done s \<or> result s \<noteq> Pending then s
      else
        (case out of
           Failure err \<Rightarrow> s\<lparr>mkdirp_done := True, result := Failed err\<rparr>
         | Success \<Rightarrow>
             s\<lparr>mkdirp_done := True, istream := True,
               e_calls := e_calls s @ [CreateWriteStream (Join targetPath name) mode, Pipe]\<rparr>))"
| "entry_step name mode targetPath s IstreamCloseEv =
     (if istream s then s\<lparr>result := settle (result s) (Completed ())\<rparr> else s)"
| "entry_step name mode targetPath s (IstreamErrorEv err) =
     (if istream s then s\<lparr>result := settle (result s) (Failed err)\<rparr> else s)"
| "entry_step name mode targetPath s (StreamErrorEv err) =
     (if istream s then s\<lparr>result := settle (result s) (Failed err)\<rparr> else s)"
| "entry_step name mode targetPath s CancelEntry =
     (if result s \<noteq> Pending then s
      else
        (let s1 = (if istream s then s\<lparr>e_calls := e_calls s @ [IstreamClose]\<rparr> else s)
         in s1\<lparr>result := Cancelled\<rparr>))"

definition entry_run ::
  "string \<Rightarrow> int \<Rightarrow> string \<Rightarrow> entry_extraction \<Rightarrow> entry_event list \<Rightarrow> entry_extraction" where
  "entry_run name mode targetPath s evs = foldl (entry_step name mode targetPath) s evs"

subsection \<open>Reading one entry: \<^verbatim>\<open>read\<close> and \<^verbatim>\<open>buffer\<close>\<close>

text \<open>
  Modelled from the spec: \<^verbatim>\<open>vs/nls\<close> is not among the sources. \<^verbatim>\<open>localize\<close> is taken
  to return its default message with the placeholder \<^verbatim>\<open>{0}\<close> replaced by the argument,
  which is what the spec's "not found error naming the requested entry path" asks of it.
\<close>

fun format0 :: "string \<Rightarrow> string \<Rightarrow> string" where
  "format0 (a # b # c # rest) arg =
     (if [a, b, c] = ''{0}'' then arg @ format0 rest arg else a # format0 (b # c # rest) arg)"
| "format0 s arg = s"

definition localize :: "string \<Rightarrow> string \<Rightarrow> string \<Rightarrow> string" where
  "localize key msg arg = format0 msg arg"

text \<open>
  A readable stream is what it emits once it is listened to: chunks of bytes, its end,
  an error.
\<close>

type_synonym Buffer = "8 word list"

datatype stream_event = Data Buffer | End | StreamError error

type_synonym Readable = "stream_event list"

text \<open>
  What happens during \<^verbatim>\<open>read\<close>: the archive emits an entry or its close signal, or the
  oldest \<^verbatim>\<open>openReadStream\<close> call that is still open calls back. \<^verbatim>\<open>read\<close> registers no
  handler for the archive's error event.
\<close>

datatype read_event = REntry Entry | ROpened "error + Readable" | RClose

record reading =
  r_promise :: "Readable promise"
  r_once_close :: bool
  r_opening :: nat
  r_calls :: "call list"

definition read_init :: reading where
  "read_init = \<lparr>r_promise = Pending, r_once_close = True, r_opening = 0, r_calls = []\<rparr>"

fun read_step :: "string \<Rightarrow> reading \<Rightarrow> read_event \<Rightarrow> reading" where
  "read_step filePath s (REntry entry) =
     (if fileName entry = filePath
      then s\<lparr>r_opening := Suc (r_opening s),
             r_calls := r_calls s @ [OpenReadStream (fileName entry)]\<rparr>
      else s)"
| "read_step filePath s (ROpened r) =
     (if r_opening s = 0 then s
      else s\<lparr>r_opening := r_opening s - 1,
             r_promise := settle (r_promise s)
               (case r of Inl err \<Rightarrow> Failed err | Inr stream \<Rightarrow> Completed stream)\<rparr>)"
| "read_step filePath s RClose =
     (if \<not> r_once_close s then s
      else s\<lparr>r_once_close := False,
             r_promise := settle (r_promise s)
               (Failed (Error (localize ''notFound'' ''{0} not found inside zip.'' filePath)))\<rparr>)"

record read_surroundings =
  r_open_error :: "error option"
  r_events :: "read_event list"

definition read :: "string \<Rightarrow> string \<Rightarrow> read_surroundings \<Rightarrow> Readable promise" where
  "read zipPath filePath env =
     (case r_open_error env of
        Some err \<Rightarrow> Failed (toExtractError err)
      | None \<Rightarrow> r_promise (foldl (read_step filePath) read_init (r_events env)))"

text \<open>
  \<^verbatim>\<open>buffer\<close>: the chunks are pushed in the order they arrive; the end of the stream
  completes the promise with their concatenation, an error fails it.
\<close>

record buffering =
  buffers :: "Buffer list"
  b_once_error :: bool
  b_promise :: "Buffer promise"

definition buffer_init :: buffering where
  "buffer_init = \<lparr>buffers = [], b_once_error = True, b_promise = Pending\<rparr>"

fun buffer_step :: "buffering \<Rightarrow> stream_event \<Rightarrow> buffering" where
  "buffer_step s (Data b) = s\<lparr>buffers := buffers s @ [b]\<rparr>"
| "buffer_step s End = s\<lparr>b_promise := settle (b_promise s) (Completed (concat (buffers s)))\<rparr>"
| "buffer_step s (StreamError err) =
     (if \<not> b_once_error s then s
      else s\<lparr>b_once_error := False, b_promise := settle (b_promise s) (Failed err)\<rparr>)"

definition buffer_stream :: "Readable \<Rightarrow> Buffer promise" where
  "buffer_stream stream = b_promise (foldl buffer_step buffer_init stream)"

definition buffer :: "string \<Rightarrow> string \<Rightarrow> read_surroundings \<Rightarrow> Buffer promise" where
  "buffer zipPath filePath env =
     (case read zipPath filePath env of
        Completed stream \<Rightarrow> buffer_stream stream
      | Failed err \<Rightarrow> Failed err
      | Pending \<Rightarrow> Pending
      | Cancelled \<Rightarrow> Cancelled)"

subsection \<open>Notions used in the statements and in their proofs\<close>

text \<open>
  The body of file-write task \<open>i\<close> is executing when operation \<open>i\<close> is an extraction
  handed to the throttler and is running; \<open>executing_tasks\<close> lists these tasks. A task
  is an operation that went through the throttler.
\<close>

definition executing :: "extraction \<Rightarrow> nat \<Rightarrow> bool" where
  "executing s i =
     (i < length (ops s) \<and> is_ExtractOp (fst (ops s ! i)) \<and> snd (ops s ! i) = Running)"

definition executing_tasks :: "extraction \<Rightarrow> nat list" where
  "executing_tasks s = filter (executing s) [0..<length (ops s)]"

definition is_task :: "extraction \<Rightarrow> nat \<Rightarrow> bool" where
  "is_task s i = (i < length (ops s) \<and> is_ExtractOp (fst (ops s ! i)))"

text \<open>
  The events that settle the driver's promise by themselves: a cancellation and an
  error of the archive.
\<close>

fun intervenes :: "event \<Rightarrow> bool" where
  "intervenes CancelEv = True"
| "intervenes (ErrorEv err) = True"
| "intervenes ev = False"

text \<open>The state of a throttled task, and the invariant of the throttler.\<close>

definition task_state :: "extraction \<Rightarrow> nat \<Rightarrow> op_state option" where
  "task_state s i =
     (if i < length (ops s) \<and> is_ExtractOp (fst (ops s ! i)) then Some (snd (ops s ! i)) else None)"

definition thr_inv :: "extraction \<Rightarrow> bool" where
  "thr_inv s =
     (sorted_wrt (<) (started s @ thr_queue s)
      \<and> (\<forall>i \<in> set (started s). task_state s i \<noteq> None)
      \<and> (\<forall>i \<in> set (thr_queue s). task_state s i = Some Queued)
      \<and> (\<forall>i j. task_state s i = Some Running \<and> task_state s j = Some Running \<longrightarrow> i = j)
      \<and> (\<not> thr_running s \<longrightarrow> thr_queue s = [] \<and> (\<forall>i. task_state s i \<noteq> Some Running)))"

text \<open>
  After the close signal found the promise pending and \<^verbatim>\<open>last\<close> referring to operation
  \<open>i\<close>: either the promise is pending and waits for \<open>i\<close>, or \<open>i\<close> has settled and the
  promise holds its outcome.
\<close>

definition join_inv :: "nat \<Rightarrow> extraction \<Rightarrow> bool" where
  "join_inv i s =
     (\<not> once_close s
      \<and> (((op_state_of s i = Some Running \<or> op_state_of s i = Some Queued)
            \<and> joined s = Some i \<and> promise s = Pending)
         \<or> (\<exists>out. op_state_of s i = Some (Settled out) \<and> promise s = of_outcome out)))"

text \<open>
  \<^verbatim>\<open>last\<close> refers to a scheduled operation, and no operation is cancelled while the
  promise is pending.
\<close>

definition live_inv :: "extraction \<Rightarrow> bool" where
  "live_inv s =
     ((\<forall>i. last_op s = Some i \<longrightarrow> i < length (ops s))
      \<and> (promise s = Pending \<longrightarrow> (\<forall>i. op_state_of s i \<noteq> Some CancelledOp)))"

section \<open>Properties\<close>

subsection \<open>Mode translation\<close>

lemma low16_signed_drop_bit:
  "take_bit 16 (signed_drop_bit 16 (a::32 word)) = drop_bit 16 a"
proof (rule bit_word_eqI)
  fix n
  assume "n < LENGTH(32)"
  show "bit (take_bit 16 (signed_drop_bit 16 a)) n = bit (drop_bit 16 a) n"
    by (auto simp add: bit_take_bit_iff bit_signed_drop_bit_iff bit_drop_bit_eq
        dest: bit_imp_le_length)
qed

lemma and_low16:
  assumes m: "m = take_bit 16 m"
  shows "signed_drop_bit 16 (a::32 word) AND m = drop_bit 16 a AND m"
proof -
  have "signed_drop_bit 16 a AND m = signed_drop_bit 16 a AND take_bit 16 m"
    using m by simp
  also have "\<dots> = take_bit 16 (signed_drop_bit 16 a) AND m"
    by (simp add: take_bit_eq_mask and.assoc and.commute and.left_commute)
  finally show ?thesis by (simp add: low16_signed_drop_bit)
qed

lemma sint_and_small:
  assumes "uint m < 2 ^ 31"
  shows "sint ((x::32 word) AND m) = uint x AND uint m"
proof -
  have le: "uint x AND uint m \<le> uint m" by (rule AND_upper2) simp
  have ge: "0 \<le> uint x AND uint m" by simp
  have "sint (x AND m) = signed_take_bit 31 (uint x AND uint m)"
    by (simp add: sint_uint uint_and)
  also have "\<dots> = uint x AND uint m"
  proof (rule signed_take_bit_int_eq_self)
    show "- (2 ^ 31) \<le> uint x AND uint m" by (rule order_trans [OF _ ge]) simp
    show "uint x AND uint m < 2 ^ 31" by (rule le_less_trans [OF le assms])
  qed
  finally show ?thesis .
qed

lemma high16_zero_iff:
  "signed_drop_bit 16 (a::32 word) = 0 \<longleftrightarrow> drop_bit 16 a = 0"
proof
  assume "signed_drop_bit 16 a = 0"
  then have "take_bit 16 (signed_drop_bit 16 a) = 0" by simp
  then show "drop_bit 16 a = 0" by (simp add: low16_signed_drop_bit)
next
  assume z: "drop_bit 16 a = 0"
  have nb: "\<not> bit a (16 + k)" for k
  proof -
    have "bit (drop_bit 16 a) k = bit a (16 + k)" by (simp add: bit_drop_bit_eq)
    then show ?thesis using z by simp
  qed
  have nb31: "\<not> bit a 31" using nb [of 15] by simp
  show "signed_drop_bit 16 a = 0"
    by (rule bit_word_eqI) (simp add: bit_signed_drop_bit_iff nb nb31)
qed

lemma masked_shift:
  assumes "m = take_bit 16 m" and "uint m < 2 ^ 31"
  shows "sint (signed_drop_bit 16 (a::32 word) AND m) = uint (drop_bit 16 a) AND uint m"
  by (simp only: and_low16 [OF assms(1)] sint_and_small [OF assms(2)])

lemma sum_masks:
  "((h::int) AND 61440) + (h AND 448) + (h AND 56) + (h AND 7) = h AND 61951"
proof -
  have d: "(h AND x) + (h AND y) = h AND (x OR y)" if "x AND y = 0" for x y :: int
  proof -
    have "(h AND x) AND (h AND y) = h AND (x AND y)"
      by (simp add: and.assoc and.commute and.left_commute)
    then have "(h AND x) AND (h AND y) = 0" using that by simp
    then have "(h AND x) + (h AND y) = (h AND x) OR (h AND y)"
      by (rule disjunctive_add_eq_or)
    then show ?thesis by (simp add: bit.conj_disj_distrib)
  qed
  have "(h AND 61440) + (h AND 448) = h AND 61888" using d [of 61440 448] by simp
  moreover have "(h AND 61888) + (h AND 56) = h AND 61944" using d [of 61888 56] by simp
  moreover have "(h AND 61944) + (h AND 7) = h AND 61951" using d [of 61944 7] by simp
  ultimately show ?thesis by simp
qed

text \<open>
  C4. For every 32-bit attribute word, \<^verbatim>\<open>modeFromEntry\<close> is the sum of the file-type bits
  and the three permission groups of \<open>h\<close>, where \<open>h\<close> is the high 16 bits of the word when
  they are not zero and 33188 otherwise; that sum is \<open>h\<close> restricted to the file-type and
  the nine read-write-execute bits (61951 = 61440 + 448 + 56 + 7).
\<close>

theorem modeFromEntry_masks:
  "modeFromEntry entry =
     (let a = externalFileAttributes entry;
          h = (if drop_bit 16 a = 0 then 33188 else uint (drop_bit 16 a))
      in (h AND 61440) + (h AND 448) + (h AND 56) + (h AND 7))
   \<and> modeFromEntry entry =
     (let a = externalFileAttributes entry;
          h = (if drop_bit 16 a = 0 then 33188 else uint (drop_bit 16 a))
      in h AND 61951)"
proof -
  define a where "a = externalFileAttributes entry"
  define h :: int where "h = (if drop_bit 16 a = 0 then 33188 else uint (drop_bit 16 a))"
  have m: "modeFromEntry entry = (h AND 61440) + (h AND 448) + (h AND 56) + (h AND 7)"
  proof (cases "drop_bit 16 a = 0")
    case True
    then have "signed_drop_bit 16 a = 0" by (simp add: high16_zero_iff)
    then show ?thesis using True by (simp add: modeFromEntry_def a_def h_def)
  next
    case False
    then have nz: "signed_drop_bit 16 a \<noteq> 0" by (simp add: high16_zero_iff)
    have "sint (signed_drop_bit 16 a AND 61440) = h AND 61440"
      "sint (signed_drop_bit 16 a AND 448) = h AND 448"
      "sint (signed_drop_bit 16 a AND 56) = h AND 56"
      "sint (signed_drop_bit 16 a AND 7) = h AND 7"
      using False by (simp_all add: masked_shift h_def)
    then show ?thesis using nz by (simp add: modeFromEntry_def a_def [symmetric])
  qed
  show ?thesis
    unfolding Let_def a_def [symmetric] h_def [symmetric]
    using m sum_masks [of h] by simp
qed

subsection \<open>Error mapping\<close>

lemma toExtractError_eq:
  "toExtractError e = ExtractError CorruptZip (''Corrupt ZIP: '' @ message e) e"
  by (simp add: toExtractError_def new_ExtractError_def)

text \<open>
  C5. For every raw error \<open>e\<close>, \<^verbatim>\<open>toExtractError\<close> builds an \<^verbatim>\<open>ExtractError\<close> of type
  \<^verbatim>\<open>CorruptZip\<close>, whether or not the message of \<open>e\<close> contains "end of central directory
  record signature not found"; its message is the message of \<open>e\<close> prefixed with
  "Corrupt ZIP: " and its cause is \<open>e\<close> itself.
\<close>

theorem toExtractError_CorruptZip:
  "toExtractError e = ExtractError CorruptZip (''Corrupt ZIP: '' @ message e) e
   \<and> type (toExtractError e) = CorruptZip
   \<and> message (toExtractError e) = ''Corrupt ZIP: '' @ message e
   \<and> cause (toExtractError e) = e"
  by (simp add: toExtractError_eq)

subsection \<open>Entry filter\<close>

lemma compile_atoms_plain:
  "\<forall>c \<in> set sp. c \<noteq> CHR ''.'' \<and> \<not> syntax_char c \<Longrightarrow> compile_atoms sp = Some (map Lit sp)"
  by (induction sp) auto

lemma match_here_Lit:
  "match_here (map Lit sp) s = (if startsWith s sp then Some (drop (length sp) s) else None)"
  by (induction s sp rule: startsWith.induct) auto

text \<open>
  C2. The claim reads \<^verbatim>\<open>sourcePath\<close> as a literal prefix. The code splices it into a
  pattern, so the dot of the source path \<^verbatim>\<open>a.b\<close> matches any character: the entry
  \<^verbatim>\<open>a-b/readme.md\<close> is in scope and its output name is \<^verbatim>\<open>/readme.md\<close>, although its
  name does not start with \<^verbatim>\<open>a.b\<close>.
\<close>

theorem sourcePath_read_as_pattern:
  "sourcePathRegex (Some ''a.b'') = Some (RegExp True [Lit CHR ''a'', AnyChar, Lit CHR ''b''])
   \<and> entry_filter (RegExp True [Lit CHR ''a'', AnyChar, Lit CHR ''b'']) ''a-b/readme.md''
       = Some ''/readme.md''
   \<and> \<not> startsWith ''a-b/readme.md'' ''a.b''"
  by (simp add: sourcePathRegex_def new_RegExp_def syntax_char_def entry_filter_def test_def
      exec_def replace_empty_def line_terminator_def)

text \<open>
  What does hold of the entry filter: with no source path (or an empty one) every entry
  is in scope and keeps its name; with a source path free of pattern syntax, an entry is
  in scope exactly when its name starts with the source path, and its output name is the
  entry name without that prefix.
\<close>

theorem entry_filter_plain_sourcePath:
  "(sp = None \<or> sp = Some [] \<longrightarrow>
      sourcePathRegex sp = Some (RegExp False [])
      \<and> entry_filter (RegExp False []) entryName = Some entryName)
   \<and> (p \<noteq> [] \<and> (\<forall>c \<in> set p. c \<noteq> CHR ''.'' \<and> \<not> syntax_char c) \<longrightarrow>
      sourcePathRegex (Some p) = Some (RegExp True (map Lit p))
      \<and> entry_filter (RegExp True (map Lit p)) entryName
          = (if startsWith entryName p then Some (drop (length p) entryName) else None))"
proof -
  have "entry_filter (RegExp False []) entryName = Some entryName"
    by (cases entryName)
      (simp_all add: entry_filter_def test_def exec_def replace_empty_def)
  then show ?thesis
    by (auto simp add: sourcePathRegex_def new_RegExp_def compile_atoms_plain entry_filter_def
        test_def exec_def replace_empty_def match_here_Lit)
qed

theorem entry_filter_plain_sourcePath_witness:
  "sourcePathRegex None = Some (RegExp False [])
   \<and> entry_filter (RegExp False []) ''README.md'' = Some ''README.md''
   \<and> sourcePathRegex (Some ''lib'') = Some (RegExp True (map Lit ''lib''))
   \<and> entry_filter (RegExp True (map Lit ''lib'')) ''libfoo/'' = Some ''foo/''
   \<and> entry_filter (RegExp True (map Lit ''lib'')) ''README.md'' = None"
  using entry_filter_plain_sourcePath [of None "''README.md''" "''lib''"]
    entry_filter_plain_sourcePath [of None "''libfoo/''" "''lib''"]
  by (simp add: syntax_char_def)

subsection \<open>Reading one entry\<close>

lemma settle_simps [simp]:
  "settle Pending new = new"
  "p \<noteq> Pending \<Longrightarrow> settle p new = p"
  by (simp_all add: settle_def)

lemma localize_notFound:
  "localize ''notFound'' ''{0} not found inside zip.'' filePath
     = filePath @ '' not found inside zip.''"
  by (simp add: localize_def)

lemma read_settled_stays:
  "r_promise s \<noteq> Pending \<Longrightarrow> r_promise (foldl (read_step fp) s evs) = r_promise s"
proof (induction evs arbitrary: s)
  case Nil
  then show ?case by simp
next
  case (Cons ev evs)
  have "r_promise (read_step fp s ev) = r_promise s"
    using Cons.prems by (cases ev) simp_all
  then show ?case using Cons by simp
qed

lemma read_unmatched:
  assumes "\<forall>e. REntry e \<in> set pre \<longrightarrow> fileName e \<noteq> fp"
    and "r_opening s = 0"
    and "(r_promise s = Pending \<and> r_once_close s)
         \<or> r_promise s = Failed (Error (fp @ '' not found inside zip.''))"
  shows "r_opening (foldl (read_step fp) s pre) = 0
     \<and> ((r_promise (foldl (read_step fp) s pre) = Pending
           \<and> r_once_close (foldl (read_step fp) s pre))
        \<or> r_promise (foldl (read_step fp) s pre)
            = Failed (Error (fp @ '' not found inside zip.'')))"
  using assms
proof (induction pre arbitrary: s)
  case Nil
  then show ?case by simp
next
  case (Cons ev pre)
  have "r_opening (read_step fp s ev) = 0
     \<and> ((r_promise (read_step fp s ev) = Pending \<and> r_once_close (read_step fp s ev))
        \<or> r_promise (read_step fp s ev) = Failed (Error (fp @ '' not found inside zip.'')))"
    using Cons.prems by (cases ev) (auto simp add: localize_notFound settle_def)
  moreover have "\<forall>e. REntry e \<in> set pre \<longrightarrow> fileName e \<noteq> fp"
    using Cons.prems(1) by simp
  ultimately show ?case using Cons.IH [of "read_step fp s ev"] by simp
qed

text \<open>
  C8. If the archive emits its close signal and no entry before it has the requested
  path as its name, \<^verbatim>\<open>read\<close> fails with the error whose message is the requested path
  followed by " not found inside zip.", and so does \<^verbatim>\<open>buffer\<close>; whatever follows the
  close signal changes nothing.
\<close>

theorem read_not_found:
  assumes "\<forall>e. REntry e \<in> set pre \<longrightarrow> fileName e \<noteq> filePath"
    and "r_open_error env = None"
    and "r_events env = pre @ RClose # post"
  shows "read zipPath filePath env = Failed (Error (filePath @ '' not found inside zip.''))
     \<and> buffer zipPath filePath env = Failed (Error (filePath @ '' not found inside zip.''))"
proof -
  let ?nf = "Failed (Error (filePath @ '' not found inside zip.''))"
  define s where "s = foldl (read_step filePath) read_init pre"
  have "r_opening s = 0 \<and> ((r_promise s = Pending \<and> r_once_close s) \<or> r_promise s = ?nf)"
    unfolding s_def by (rule read_unmatched [OF assms(1)]) (simp_all add: read_init_def)
  then have c: "r_promise (read_step filePath s RClose) = ?nf"
    by (auto simp add: localize_notFound)
  have "r_promise (foldl (read_step filePath) read_init (pre @ RClose # post)) = ?nf"
    using c by (simp add: s_def [symmetric] read_settled_stays)
  then have r: "read zipPath filePath env = ?nf"
    using assms(2,3) by (simp add: read_def)
  then show ?thesis by (simp add: buffer_def)
qed

theorem read_not_found_witness:
  "read ''a.zip'' ''missing.txt''
     \<lparr>r_open_error = None,
      r_events = [REntry \<lparr>fileName = ''a.txt'', externalFileAttributes = 0\<rparr>, RClose]\<rparr>
     = Failed (Error ''missing.txt not found inside zip.'')
   \<and> buffer ''a.zip'' ''missing.txt''
     \<lparr>r_open_error = None,
      r_events = [REntry \<lparr>fileName = ''a.txt'', externalFileAttributes = 0\<rparr>, RClose]\<rparr>
     = Failed (Error ''missing.txt not found inside zip.'')"
  using read_not_found [of "[REntry \<lparr>fileName = ''a.txt'', externalFileAttributes = 0\<rparr>]"
      "''missing.txt''"
      "\<lparr>r_open_error = None,
      r_events = [REntry \<lparr>fileName = ''a.txt'', externalFileAttributes = 0\<rparr>, RClose]\<rparr>"
      "[]" "''a.zip''"]
  by simp

lemma buffer_data: "foldl buffer_step s (map Data cs) = s\<lparr>buffers := buffers s @ cs\<rparr>"
  by (induction cs arbitrary: s) simp_all

lemma buffer_settled_stays:
  "b_promise s \<noteq> Pending \<Longrightarrow> b_promise (foldl buffer_step s evs) = b_promise s"
proof (induction evs arbitrary: s)
  case Nil
  then show ?case by simp
next
  case (Cons ev evs)
  have "b_promise (buffer_step s ev) = b_promise s"
    using Cons.prems by (cases ev) simp_all
  then show ?case using Cons by simp
qed

lemma buffer_stream_end: "buffer_stream (map Data cs @ End # rest) = Completed (concat cs)"
  by (simp add: buffer_stream_def buffer_data buffer_init_def buffer_settled_stays)

lemma buffer_stream_error: "buffer_stream (map Data cs @ StreamError err # rest) = Failed err"
  by (simp add: buffer_stream_def buffer_data buffer_init_def buffer_settled_stays)

text \<open>
  C9. When \<^verbatim>\<open>read\<close> yields a stream that emits the chunks \<open>cs\<close> and then its end,
  \<^verbatim>\<open>buffer\<close> completes with the concatenation of \<open>cs\<close> in the order of arrival; when
  the stream emits chunks and then an error, before any end, \<^verbatim>\<open>buffer\<close> fails with that
  error. What the stream emits afterwards changes nothing.
\<close>

theorem buffer_concat:
  "(read zipPath filePath env = Completed (map Data cs @ End # rest)
      \<longrightarrow> buffer zipPath filePath env = Completed (concat cs))
   \<and> (read zipPath filePath env' = Completed (map Data cs' @ StreamError err # rest')
      \<longrightarrow> buffer zipPath filePath env' = Failed err)"
  by (simp add: buffer_def buffer_stream_end buffer_stream_error)

theorem buffer_concat_witness:
  "buffer ''a.zip'' ''a.txt''
     \<lparr>r_open_error = None,
      r_events = [REntry \<lparr>fileName = ''a.txt'', externalFileAttributes = 0\<rparr>,
                  ROpened (Inr [Data [1, 2], Data [3], End]), RClose]\<rparr>
     = Completed [1, 2, 3]
   \<and> buffer ''a.zip'' ''a.txt''
     \<lparr>r_open_error = None,
      r_events = [REntry \<lparr>fileName = ''a.txt'', externalFileAttributes = 0\<rparr>,
                  ROpened (Inr [Data [1, 2], StreamError (Error ''read failed''), End]), RClose]\<rparr>
     = Failed (Error ''read failed'')"
  using buffer_concat [of "''a.zip''" "''a.txt''"
      "\<lparr>r_open_error = None,
      r_events = [REntry \<lparr>fileName = ''a.txt'', externalFileAttributes = 0\<rparr>,
                  ROpened (Inr [Data [1, 2], Data [3], End]), RClose]\<rparr>" "[[1, 2], [3]]" "[]"
      "\<lparr>r_open_error = None,
      r_events = [REntry \<lparr>fileName = ''a.txt'', externalFileAttributes = 0\<rparr>,
                  ROpened (Inr [Data [1, 2], StreamError (Error ''read failed''), End]), RClose]\<rparr>"
      "[[1, 2]]" "Error ''read failed''" "[End]"]
  by (simp add: read_def read_init_def)

subsection \<open>Calls made by the driver\<close>

lemma calls_set_op_state [simp]: "calls (set_op_state i st s) = calls s"
  by (simp add: set_op_state_def)

lemma calls_throttler_next [simp]: "calls (throttler_next s) = calls s"
  by (simp add: throttler_next_def split: list.splits)

lemma calls_throttler_queue [simp]: "calls (throttler_queue t s) = calls s"
  by (simp add: throttler_queue_def Let_def)

lemma calls_cancel_op [simp]: "calls (cancel_op l s) = calls s"
  by (simp add: cancel_op_def Let_def split: option.splits op_state.splits)

lemma calls_on_close [simp]: "calls (on_close s) = calls s"
  by (simp add: on_close_def Let_def split: option.splits op_state.splits)

lemma calls_on_error [simp]: "calls (on_error err s) = calls s"
  by (simp add: on_error_def)

lemma calls_on_settled [simp]: "calls (on_settled i out s) = calls s"
  by (simp add: on_settled_def Let_def)

lemma no_rimraf_step:
  "Rimraf t \<notin> set (calls s) \<Longrightarrow> Rimraf t \<notin> set (calls (step tp re s ev))"
  by (cases ev) (auto simp add: on_entry_def Let_def on_cancel_def cancel_handler_def)

lemma no_rimraf_run:
  "Rimraf t \<notin> set (calls s) \<Longrightarrow> Rimraf t \<notin> set (calls (run tp re s evs))"
  unfolding run_def
  by (induction evs arbitrary: s) (simp_all add: no_rimraf_step)

lemma no_rimraf_extractZip: "extractZip tp re evs = (cs, p) \<Longrightarrow> Rimraf t \<notin> set cs"
  using no_rimraf_run [of t init tp re evs] by (auto simp add: extractZip_def Let_def init_def)

subsection \<open>Overwriting\<close>

text \<open>
  C10. When opening the archive fails, \<^verbatim>\<open>extract\<close> makes no call but the opening one and
  fails with the wrapped error: \<^verbatim>\<open>rimraf\<close> is not called. Whenever \<^verbatim>\<open>rimraf\<close> is called,
  the archive was opened with success, \<^verbatim>\<open>overwrite\<close> is set, the path deleted is the
  target path and the call comes right after the opening.
\<close>

theorem rimraf_after_open:
  assumes "extract' zipPath targetPath options env = Some (cs, p)"
  shows "(open_error env = Some err \<longrightarrow>
            cs = [OpenZip zipPath] \<and> p = Failed (toExtractError err)
            \<and> Rimraf targetPath \<notin> set cs)
     \<and> (Rimraf t \<in> set cs \<longrightarrow>
            open_error env = None \<and> overwrite options \<and> t = targetPath
            \<and> take 2 cs = [OpenZip zipPath, Rimraf targetPath])"
  using assms
  by (auto simp add: extract'_def openZip_def dest: no_rimraf_extractZip
      split: option.splits prod.splits if_splits promise.splits outcome.splits)

theorem rimraf_after_open_witness:
  "extract' ''a.zip'' ''out'' \<lparr>overwrite = True, sourcePath = None\<rparr>
     \<lparr>open_error = Some (Error ''bad zip''), rimraf_outcome = Success, events = [CloseEv]\<rparr>
     = Some ([OpenZip ''a.zip''],
         Failed (ExtractError CorruptZip ''Corrupt ZIP: bad zip'' (Error ''bad zip'')))
   \<and> Rimraf ''out'' \<notin> set [OpenZip ''a.zip'']
   \<and> extract' ''a.zip'' ''out'' \<lparr>overwrite = True, sourcePath = None\<rparr>
     \<lparr>open_error = None, rimraf_outcome = Success, events = [CloseEv]\<rparr>
     = Some ([OpenZip ''a.zip'', Rimraf ''out''], Completed ())
   \<and> take 2 [OpenZip ''a.zip'', Rimraf ''out''] = [OpenZip ''a.zip'', Rimraf ''out'']"
proof -
  have a: "extract' ''a.zip'' ''out'' \<lparr>overwrite = True, sourcePath = None\<rparr>
     \<lparr>open_error = Some (Error ''bad zip''), rimraf_outcome = Success, events = [CloseEv]\<rparr>
     = Some ([OpenZip ''a.zip''], Failed (ExtractError CorruptZip ''Corrupt ZIP: bad zip'' (Error ''bad zip'')))"
    by (simp add: extract'_def openZip_def sourcePathRegex_def new_RegExp_def toExtractError_eq)
  have b: "extract' ''a.zip'' ''out'' \<lparr>overwrite = True, sourcePath = None\<rparr>
     \<lparr>open_error = None, rimraf_outcome = Success, events = [CloseEv]\<rparr>
     = Some ([OpenZip ''a.zip'', Rimraf ''out''], Completed ())"
    by (simp add: extract'_def openZip_def sourcePathRegex_def new_RegExp_def extractZip_def
      run_def init_def on_close_def)
  have "Rimraf ''out'' \<notin> set [OpenZip ''a.zip'']"
    using rimraf_after_open [OF a, of "Error ''bad zip''" "''out''"] by simp
  moreover have "take 2 [OpenZip ''a.zip'', Rimraf ''out''] = [OpenZip ''a.zip'', Rimraf ''out'']"
    using rimraf_after_open [OF b, of "Error ''bad zip''" "''out''"] by simp
  ultimately show ?thesis using a b by simp
qed

subsection \<open>The throttler's invariant\<close>

lemma task_state_less: "task_state s i = Some x \<Longrightarrow> i < length (ops s)"
  by (simp add: task_state_def split: if_splits)

lemma task_state_end [simp]: "task_state s (length (ops s)) = None"
  by (simp add: task_state_def)

lemma task_state_append:
  "ops s' = ops s @ [(t, x)] \<Longrightarrow>
   task_state s' i =
     (if i = length (ops s) then (if is_ExtractOp t then Some x else None) else task_state s i)"
  by (auto simp add: task_state_def nth_append)

lemma task_state_update:
  "ops s' = (ops s)[j := (fst (ops s ! j), x)] \<Longrightarrow>
   task_state s' i = (if i = j \<and> task_state s j \<noteq> None then Some x else task_state s i)"
  by (auto simp add: task_state_def nth_list_update)

lemma task_state_same: "ops s' = ops s \<Longrightarrow> task_state s' i = task_state s i"
  by (simp add: task_state_def)

lemma executing_iff: "executing s i \<longleftrightarrow> task_state s i = Some Running"
  by (auto simp add: executing_def task_state_def)

lemma thr_inv_init: "thr_inv init"
  by (simp add: thr_inv_def init_def task_state_def)

lemma thr_inv_fields:
  assumes "ops s' = ops s" "thr_running s' = thr_running s" "thr_queue s' = thr_queue s"
    "started s' = started s"
  shows "thr_inv s' = thr_inv s"
  using assms by (simp add: thr_inv_def task_state_same [OF assms(1)])

lemma thr_inv_on_close: "thr_inv (on_close s) = thr_inv s"
  by (rule thr_inv_fields)
    (simp_all add: on_close_def Let_def split: option.splits op_state.splits)

lemma thr_inv_on_error: "thr_inv (on_error err s) = thr_inv s"
  by (rule thr_inv_fields) (simp_all add: on_error_def)

lemma thr_inv_mkdir:
  assumes "thr_inv s" and o: "ops s' = ops s @ [(MkdirpOp tp name, Running)]"
    and "thr_running s' = thr_running s" "thr_queue s' = thr_queue s" "started s' = started s"
  shows "thr_inv s'"
  using assms(1,3-)
  by (auto simp add: thr_inv_def task_state_append [OF o])

lemma set_op_state_fields [simp]:
  "ops (set_op_state i x s) = (ops s)[i := (fst (ops s ! i), x)]"
  "thr_running (set_op_state i x s) = thr_running s"
  "thr_queue (set_op_state i x s) = thr_queue s"
  "started (set_op_state i x s) = started s"
  "promise (set_op_state i x s) = promise s"
  "joined (set_op_state i x s) = joined s"
  "last_op (set_op_state i x s) = last_op s"
  "isCanceled (set_op_state i x s) = isCanceled s"
  "once_close (set_op_state i x s) = once_close s"
  "once_error (set_op_state i x s) = once_error s"
  by (simp_all add: set_op_state_def)

lemma task_state_set_op_state:
  "task_state (set_op_state j x s) i =
     (if i = j \<and> task_state s j \<noteq> None then Some x else task_state s i)"
  by (rule task_state_update) simp

lemma thr_inv_queue:
  assumes inv: "thr_inv s" and t: "is_ExtractOp t"
  shows "thr_inv (throttler_queue t s)"
proof -
  have lt: "i < length (ops s)" if "i \<in> set (started s @ thr_queue s)" for i
  proof -
    have "task_state s i \<noteq> None" using inv that by (auto simp add: thr_inv_def)
    then show ?thesis by (auto dest: task_state_less)
  qed
  show ?thesis
  proof (cases "thr_running s")
    case True
    define s' where "s' = s\<lparr>ops := ops s @ [(t, Queued)], thr_queue := thr_queue s @ [length (ops s)]\<rparr>"
    have o: "ops s' = ops s @ [(t, Queued)]" by (simp add: s'_def)
    have f: "thr_running s' = thr_running s" "thr_queue s' = thr_queue s @ [length (ops s)]"
      "started s' = started s" by (simp_all add: s'_def)
    have srt: "sorted_wrt (<) (started s' @ thr_queue s')"
      using inv lt by (auto simp add: f thr_inv_def sorted_wrt_append)
    have "thr_inv s'"
      unfolding thr_inv_def
      using inv srt True t lt
      by (auto simp add: thr_inv_def f task_state_append [OF o])
    then show ?thesis using True by (simp add: throttler_queue_def Let_def s'_def)
  next
    case False
    define s' where "s' = s\<lparr>ops := ops s @ [(t, Running)], thr_running := True,
             started := started s @ [length (ops s)]\<rparr>"
    have o: "ops s' = ops s @ [(t, Running)]" by (simp add: s'_def)
    have f: "thr_running s' = True" "thr_queue s' = thr_queue s"
      "started s' = started s @ [length (ops s)]" by (simp_all add: s'_def)
    have q: "thr_queue s = []" and nr: "\<And>i. task_state s i \<noteq> Some Running"
      using inv False by (auto simp add: thr_inv_def)
    have srt: "sorted_wrt (<) (started s' @ thr_queue s')"
      using inv lt q by (auto simp add: f thr_inv_def sorted_wrt_append)
    have "thr_inv s'"
      unfolding thr_inv_def
      using inv srt t lt q nr
      by (auto simp add: thr_inv_def f task_state_append [OF o])
    then show ?thesis using False by (simp add: throttler_queue_def Let_def s'_def)
  qed
qed

lemma thr_inv_finish:
  assumes inv: "thr_inv s" and r: "task_state s i = Some Running" and x: "x \<noteq> Running"
  shows "thr_inv (throttler_next (set_op_state i x s))"
proof -
  define s1 where "s1 = set_op_state i x s"
  have only: "task_state s j = Some Running \<Longrightarrow> j = i" for j
    using inv r by (auto simp add: thr_inv_def)
  have run: "thr_running s" using inv r by (auto simp add: thr_inv_def)
  have ts1: "task_state s1 j = (if j = i then Some x else task_state s j)" for j
    using r by (simp add: s1_def task_state_set_op_state)
  have f1: "thr_running s1 = thr_running s" "thr_queue s1 = thr_queue s" "started s1 = started s"
    by (simp_all add: s1_def)
  have nq: "i \<notin> set (thr_queue s)" using inv r by (auto simp add: thr_inv_def)
  show ?thesis
  proof (cases "thr_queue s")
    case Nil
    have "thr_inv (s1\<lparr>thr_running := False\<rparr>)"
      unfolding thr_inv_def
      using inv x only Nil
      by (auto simp add: thr_inv_def f1 ts1 task_state_same [of "s1\<lparr>thr_running := False\<rparr>" s1])
    then show ?thesis using Nil by (simp add: throttler_next_def s1_def [symmetric] f1)
  next
    case (Cons j q)
    define s2 where "s2 = (set_op_state j Running s1)\<lparr>thr_queue := q, started := started s1 @ [j]\<rparr>"
    have jq: "task_state s j = Some Queued" using inv Cons by (auto simp add: thr_inv_def)
    have ji: "j \<noteq> i" using jq r by auto
    have o2: "ops s2 = ops (set_op_state j Running s1)" by (simp add: s2_def)
    have ts2: "task_state s2 k = (if k = j then Some Running else if k = i then Some x else task_state s k)" for k
      using jq ji by (simp add: task_state_same [OF o2] task_state_set_op_state ts1)
    have f2: "thr_running s2 = thr_running s" "thr_queue s2 = q" "started s2 = started s @ [j]"
      by (simp_all add: s2_def f1)
    have srt: "sorted_wrt (<) (started s @ j # q)" using inv Cons by (simp add: thr_inv_def)
    then have jnq: "j \<notin> set q" by (auto simp add: sorted_wrt_append)
    have "thr_inv s2"
      unfolding thr_inv_def
      using inv x only Cons srt jnq nq run
      by (auto simp add: thr_inv_def f2 ts2)
    then show ?thesis using Cons by (simp add: throttler_next_def s1_def [symmetric] s2_def f1)
  qed
qed

lemma thr_inv_unqueue:
  assumes inv: "thr_inv s" and r: "task_state s i \<noteq> Some Running"
    and x: "x \<noteq> Running" "x \<noteq> Queued"
  shows "thr_inv ((set_op_state i x s)\<lparr>thr_queue := removeAll i (thr_queue s)\<rparr>)"
proof -
  define s1 where "s1 = (set_op_state i x s)\<lparr>thr_queue := removeAll i (thr_queue s)\<rparr>"
  have o1: "ops s1 = ops (set_op_state i x s)" by (simp add: s1_def)
  have ts1: "task_state s1 j = (if j = i \<and> task_state s i \<noteq> None then Some x else task_state s j)" for j
    by (simp add: task_state_same [OF o1] task_state_set_op_state)
  have f1: "thr_running s1 = thr_running s" "thr_queue s1 = removeAll i (thr_queue s)"
    "started s1 = started s" by (simp_all add: s1_def)
  have srt: "sorted_wrt (<) (started s @ removeAll i (thr_queue s))"
    using inv by (auto simp add: thr_inv_def sorted_wrt_append removeAll_filter_not_eq sorted_wrt_filter)
  have "thr_inv s1"
    unfolding thr_inv_def
    using inv x r srt
    by (auto simp add: thr_inv_def f1 ts1)
  then show ?thesis by (simp add: s1_def)
qed

lemma thr_inv_set_other:
  assumes inv: "thr_inv s" and r: "task_state s i = None"
  shows "thr_inv (set_op_state i x s)"
proof -
  have "task_state (set_op_state i x s) j = task_state s j" for j
    using r by (simp add: task_state_set_op_state)
  then show ?thesis using inv by (simp add: thr_inv_def)
qed

lemma op_state_task:
  "op_state_of s i = Some x \<Longrightarrow>
   task_state s i = (if is_ExtractOp (fst (ops s ! i)) then Some x else None)"
  by (auto simp add: op_state_of_def task_state_def split: if_splits)

lemma thr_inv_on_entry: "thr_inv s \<Longrightarrow> thr_inv (on_entry tp re e s)"
proof -
  assume inv: "thr_inv s"
  have a: "thr_inv (s\<lparr>last_op := l, ops := ops s @ [(MkdirpOp tp name, Running)], calls := cs\<rparr>)"
    for l name cs
    by (rule thr_inv_mkdir [OF inv]) simp_all
  have b: "thr_inv ((throttler_queue (ExtractOp name mode tp) (s\<lparr>calls := cs\<rparr>))\<lparr>last_op := l\<rparr>)"
    for l name cs mode
  proof -
    have "thr_inv (s\<lparr>calls := cs\<rparr>) = thr_inv s" by (rule thr_inv_fields) simp_all
    then have "thr_inv (s\<lparr>calls := cs\<rparr>)" using inv by simp
    then have q: "thr_inv (throttler_queue (ExtractOp name mode tp) (s\<lparr>calls := cs\<rparr>))"
      by (rule thr_inv_queue) simp
    have "thr_inv ((throttler_queue (ExtractOp name mode tp) (s\<lparr>calls := cs\<rparr>))\<lparr>last_op := l\<rparr>)
      = thr_inv (throttler_queue (ExtractOp name mode tp) (s\<lparr>calls := cs\<rparr>))"
      by (rule thr_inv_fields) simp_all
    then show ?thesis using q by simp
  qed
  show ?thesis using inv a b by (simp add: on_entry_def Let_def)
qed

lemma thr_inv_on_settled: "thr_inv s \<Longrightarrow> thr_inv (on_settled i out s)"
proof -
  assume inv: "thr_inv s"
  show ?thesis
  proof (cases "op_state_of s i = Some Running")
    case False
    then show ?thesis using inv by (simp add: on_settled_def)
  next
    case True
    define s2 where "s2 = (if is_ExtractOp (fst (ops s ! i))
      then throttler_next (set_op_state i (Settled out) s) else set_op_state i (Settled out) s)"
    have "thr_inv s2"
    proof (cases "is_ExtractOp (fst (ops s ! i))")
      case True
      with \<open>op_state_of s i = Some Running\<close> have "task_state s i = Some Running"
        by (simp add: op_state_task)
      then show ?thesis using True inv by (simp add: s2_def thr_inv_finish)
    next
      case False
      with \<open>op_state_of s i = Some Running\<close> have "task_state s i = None"
        by (simp add: op_state_task)
      then show ?thesis using False inv by (simp add: s2_def thr_inv_set_other)
    qed
    moreover have "thr_inv (s2\<lparr>joined := None, promise := p\<rparr>) = thr_inv s2" for p
      by (rule thr_inv_fields) simp_all
    ultimately show ?thesis using True
      by (simp add: on_settled_def Let_def s2_def [symmetric])
  qed
qed

lemma thr_inv_cancel_op: "thr_inv s \<Longrightarrow> thr_inv (cancel_op l s)"
proof -
  assume inv: "thr_inv s"
  show ?thesis
  proof (cases l)
    case None
    then show ?thesis using inv by (simp add: cancel_op_def)
  next
    case (Some i)
    show ?thesis
    proof (cases "op_state_of s i")
      case None
      then show ?thesis using inv Some by (simp add: cancel_op_def)
    next
      case st: (Some x)
      show ?thesis
      proof (cases x)
        case Queued
        have "task_state s i \<noteq> Some Running"
          using st Queued by (simp add: op_state_task)
        then have "thr_inv ((set_op_state i CancelledOp s)\<lparr>thr_queue := removeAll i (thr_queue s)\<rparr>)"
          using inv by (simp add: thr_inv_unqueue)
        then show ?thesis using Some st Queued by (simp add: cancel_op_def)
      next
        case Running
        show ?thesis
        proof (cases "is_ExtractOp (fst (ops s ! i))")
          case True
          then have "task_state s i = Some Running" using st Running by (simp add: op_state_task)
          then show ?thesis using True inv Some st Running
            by (simp add: cancel_op_def thr_inv_finish)
        next
          case False
          then have "task_state s i = None" using st Running by (simp add: op_state_task)
          then show ?thesis using False inv Some st Running
            by (simp add: cancel_op_def thr_inv_set_other)
        qed
      next
        case (Settled out)
        then show ?thesis using inv Some st by (simp add: cancel_op_def)
      next
        case CancelledOp
        then show ?thesis using inv Some st by (simp add: cancel_op_def)
      qed
    qed
  qed
qed

lemma thr_inv_cancel_handler: "thr_inv s \<Longrightarrow> thr_inv (cancel_handler s)"
proof -
  assume inv: "thr_inv s"
  define s1 where "s1 = s\<lparr>isCanceled := True\<rparr>"
  define s1' where "s1' = s1\<lparr>calls := calls s1 @ [CancelLast (last_op s1)]\<rparr>"
  define s2 where "s2 = cancel_op (last_op s1) s1'"
  have "thr_inv s1' = thr_inv s" by (rule thr_inv_fields) (simp_all add: s1'_def s1_def)
  then have "thr_inv s2" using inv by (simp add: s2_def thr_inv_cancel_op)
  moreover have "thr_inv (s2\<lparr>calls := calls s2 @ [ZipfileClose]\<rparr>) = thr_inv s2"
    by (rule thr_inv_fields) simp_all
  ultimately have "thr_inv (s2\<lparr>calls := calls s2 @ [ZipfileClose]\<rparr>)" by simp
  then show ?thesis
    unfolding cancel_handler_def Let_def s2_def s1'_def s1_def .
qed

lemma thr_inv_on_cancel: "thr_inv s \<Longrightarrow> thr_inv (on_cancel s)"
proof -
  assume inv: "thr_inv s"
  have "thr_inv (s\<lparr>promise := Cancelled\<rparr>) = thr_inv s" by (rule thr_inv_fields) simp_all
  then have "thr_inv (cancel_handler (s\<lparr>promise := Cancelled\<rparr>))"
    using inv by (simp add: thr_inv_cancel_handler)
  then show ?thesis using inv by (simp add: on_cancel_def)
qed

lemma thr_inv_step: "thr_inv s \<Longrightarrow> thr_inv (step tp re s ev)"
  by (cases ev)
    (simp_all add: thr_inv_on_entry thr_inv_on_close thr_inv_on_error thr_inv_on_cancel
      thr_inv_on_settled)

lemma thr_inv_run: "thr_inv s \<Longrightarrow> thr_inv (run tp re s evs)"
  unfolding run_def by (induction evs arbitrary: s) (simp_all add: thr_inv_step)

subsection \<open>Operations, the promise and \<^verbatim>\<open>last\<close>\<close>

lemma op_state_of_set_op_state:
  "op_state_of (set_op_state j x s) i =
     (if i = j \<and> op_state_of s j \<noteq> None then Some x else op_state_of s i)"
  by (auto simp add: op_state_of_def)

lemma op_state_of_append:
  "ops s' = ops s @ [(t, x)] \<Longrightarrow>
   op_state_of s' i = (if i = length (ops s) then Some x else op_state_of s i)"
  by (auto simp add: op_state_of_def nth_append)

lemma op_state_of_same: "ops s' = ops s \<Longrightarrow> op_state_of s' i = op_state_of s i"
  by (simp add: op_state_of_def)

lemma op_state_of_end [simp]: "op_state_of s (length (ops s)) = None"
  by (simp add: op_state_of_def)

lemma task_state_op_state: "task_state s i = Some x \<Longrightarrow> op_state_of s i = Some x"
  by (auto simp add: task_state_def op_state_of_def split: if_splits)

lemma of_outcome_not_Pending [simp]: "of_outcome out \<noteq> Pending"
  by (cases out) simp_all

lemma join_inv_fields:
  assumes "ops s' = ops s" "joined s' = joined s" "promise s' = promise s"
    "once_close s' = once_close s"
  shows "join_inv i s' = join_inv i s"
  using assms by (simp add: join_inv_def op_state_of_same [OF assms(1)])

lemma throttler_queue_fields [simp]:
  "joined (throttler_queue t s) = joined s"
  "promise (throttler_queue t s) = promise s"
  "once_close (throttler_queue t s) = once_close s"
  "once_error (throttler_queue t s) = once_error s"
  "isCanceled (throttler_queue t s) = isCanceled s"
  "length (ops (throttler_queue t s)) = Suc (length (ops s))"
  by (simp_all add: throttler_queue_def Let_def)

lemma throttler_next_fields [simp]:
  "joined (throttler_next s) = joined s"
  "promise (throttler_next s) = promise s"
  "once_close (throttler_next s) = once_close s"
  "once_error (throttler_next s) = once_error s"
  "isCanceled (throttler_next s) = isCanceled s"
  "length (ops (throttler_next s)) = length (ops s)"
  by (simp_all add: throttler_next_def split: list.splits)

lemma op_state_of_throttler_queue:
  "op_state_of (throttler_queue t s) i =
     (if i = length (ops s) then Some (if thr_running s then Queued else Running)
      else op_state_of s i)"
  by (auto simp add: throttler_queue_def Let_def op_state_of_def nth_append)

lemma op_state_of_throttler_next:
  "op_state_of (throttler_next s) i =
     (case thr_queue s of
        [] \<Rightarrow> op_state_of s i
      | j # q \<Rightarrow> if i = j \<and> op_state_of s j \<noteq> None then Some Running else op_state_of s i)"
  by (auto simp add: throttler_next_def op_state_of_def split: list.splits)

lemma join_inv_on_entry: "join_inv i s \<Longrightarrow> join_inv i (on_entry tp re e s)"
  by (auto simp add: join_inv_def on_entry_def Let_def op_state_of_def throttler_queue_def
      nth_append split: if_splits)

lemma join_inv_on_close: "join_inv i s \<Longrightarrow> on_close s = s"
  by (simp add: join_inv_def on_close_def)

lemma join_inv_on_settled:
  assumes inv: "thr_inv s" and j: "join_inv i s"
  shows "join_inv i (on_settled k out s)"
proof (cases "op_state_of s k = Some Running")
  case False
  then show ?thesis using j by (simp add: on_settled_def)
next
  case True
  define s1 where "s1 = set_op_state k (Settled out) s"
  define s2 where "s2 = (if is_ExtractOp (fst (ops s ! k)) then throttler_next s1 else s1)"
  have st1: "op_state_of s1 m = (if m = k then Some (Settled out) else op_state_of s m)" for m
    using True by (simp add: s1_def op_state_of_set_op_state)
  have q: "\<forall>m \<in> set (thr_queue s). op_state_of s m = Some Queued"
    using inv by (auto simp add: thr_inv_def dest: task_state_op_state)
  have st2: "op_state_of s2 m =
      (if m = k then Some (Settled out)
       else if is_ExtractOp (fst (ops s ! k)) \<and> thr_queue s \<noteq> [] \<and> m = hd (thr_queue s)
       then Some Running else op_state_of s m)" for m
  proof -
    have tq: "thr_queue s1 = thr_queue s" by (simp add: s1_def)
    show ?thesis
    proof (cases "is_ExtractOp (fst (ops s ! k))")
      case False
      then show ?thesis by (simp add: s2_def st1)
    next
      case ex: True
      show ?thesis
      proof (cases "thr_queue s")
        case Nil
        then show ?thesis using ex by (simp add: s2_def op_state_of_throttler_next tq st1)
      next
        case (Cons j q')
        have "op_state_of s j = Some Queued" using q Cons by simp
        then have "j \<noteq> k" using True by auto
        then show ?thesis using ex Cons \<open>op_state_of s j = Some Queued\<close>
          by (simp add: s2_def op_state_of_throttler_next tq st1)
      qed
    qed
  qed
  have hq: "thr_queue s \<noteq> [] \<Longrightarrow> op_state_of s (hd (thr_queue s)) = Some Queued"
    using q by (cases "thr_queue s") auto
  have f2: "joined s2 = joined s" "promise s2 = promise s" "once_close s2 = once_close s"
    by (simp_all add: s2_def s1_def)
  have r: "on_settled k out s =
      (if joined s2 = Some k
       then s2\<lparr>joined := None, promise := settle (promise s2) (of_outcome out)\<rparr> else s2)"
    using True by (simp add: on_settled_def Let_def s2_def s1_def)
  define t where "t = on_settled k out s"
  have ot: "op_state_of t m = op_state_of s2 m" for m
    unfolding t_def r by (simp add: op_state_of_def)
  have ft: "once_close t = once_close s"
    "promise t = (if joined s = Some k then settle (promise s) (of_outcome out) else promise s)"
    "joined t = (if joined s = Some k then None else joined s)"
    unfolding t_def r by (simp_all add: f2)
  have nc: "\<not> once_close s" using j by (simp add: join_inv_def)
  consider (wait) "op_state_of s i = Some Running \<or> op_state_of s i = Some Queued"
      "joined s = Some i" "promise s = Pending"
    | (settled) out' where "op_state_of s i = Some (Settled out')" "promise s = of_outcome out'"
    using j by (auto simp add: join_inv_def)
  then have "join_inv i t"
  proof cases
    case wait
    show ?thesis
    proof (cases "i = k")
      case True
      then show ?thesis using wait nc by (simp add: join_inv_def ot st2 ft)
    next
      case False
      then show ?thesis using wait nc by (auto simp add: join_inv_def ot st2 ft)
    qed
  next
    case settled
    have "i \<noteq> k" using settled True by auto
    moreover have "thr_queue s \<noteq> [] \<Longrightarrow> i \<noteq> hd (thr_queue s)" using hq settled by auto
    ultimately show ?thesis using settled nc by (auto simp add: join_inv_def ot st2 ft)
  qed
  then show ?thesis by (simp add: t_def)
qed

lemma promise_step_settled: "promise s \<noteq> Pending \<Longrightarrow> promise (step tp re s ev) = promise s"
  by (cases ev)
    (auto simp add: on_entry_def Let_def on_close_def on_error_def on_cancel_def on_settled_def
      split: option.splits op_state.splits)

lemma promise_run_settled: "promise s \<noteq> Pending \<Longrightarrow> promise (run tp re s evs) = promise s"
  unfolding run_def by (induction evs arbitrary: s) (simp_all add: promise_step_settled)

lemma live_inv_init: "live_inv init"
  by (simp add: live_inv_def init_def op_state_of_def)

lemma live_inv_on_entry: "live_inv s \<Longrightarrow> live_inv (on_entry tp re e s)"
  by (auto simp add: live_inv_def on_entry_def Let_def op_state_of_def throttler_queue_def
      nth_append split: if_splits)

lemma live_inv_on_close: "live_inv s \<Longrightarrow> live_inv (on_close s)"
  by (auto simp add: live_inv_def on_close_def Let_def op_state_of_def
      split: option.splits op_state.splits if_splits)

lemma live_inv_on_error: "live_inv s \<Longrightarrow> live_inv (on_error err s)"
  by (auto simp add: live_inv_def on_error_def op_state_of_def split: if_splits)

lemma length_ops_cancel_op [simp]: "length (ops (cancel_op l s)) = length (ops s)"
  by (simp add: cancel_op_def Let_def split: option.splits op_state.splits)

lemma cancel_op_fields [simp]:
  "last_op (cancel_op l s) = last_op s"
  "promise (cancel_op l s) = promise s"
  "isCanceled (cancel_op l s) = isCanceled s"
  by (simp_all add: cancel_op_def Let_def throttler_next_def
      split: option.splits op_state.splits list.splits)

lemma live_inv_on_cancel: "live_inv s \<Longrightarrow> live_inv (on_cancel s)"
  by (auto simp add: live_inv_def on_cancel_def cancel_handler_def Let_def)

lemma live_inv_on_settled: "live_inv s \<Longrightarrow> live_inv (on_settled k out s)"
proof -
  assume l: "live_inv s"
  show ?thesis
  proof (cases "op_state_of s k = Some Running")
    case False
    then show ?thesis using l by (simp add: on_settled_def)
  next
    case True
    define s1 where "s1 = set_op_state k (Settled out) s"
    define s2 where "s2 = (if is_ExtractOp (fst (ops s ! k)) then throttler_next s1 else s1)"
    have r: "on_settled k out s =
      (if joined s2 = Some k
       then s2\<lparr>joined := None, promise := settle (promise s2) (of_outcome out)\<rparr> else s2)"
      using True by (simp add: on_settled_def Let_def s2_def s1_def)
    have a: "op_state_of s2 m = Some CancelledOp \<Longrightarrow> op_state_of s m = Some CancelledOp" for m
      by (auto simp add: s2_def s1_def op_state_of_throttler_next op_state_of_set_op_state
          split: if_splits list.splits)
    have b: "length (ops s2) = length (ops s)" "last_op s2 = last_op s" "promise s2 = promise s"
      by (simp_all add: s2_def s1_def throttler_next_def split: list.splits)
    have c: "op_state_of (s2\<lparr>joined := None, promise := p\<rparr>) m = op_state_of s2 m" for p m
      by (simp add: op_state_of_def)
    show ?thesis
      unfolding r using l a b
      by (auto simp add: live_inv_def c)
  qed
qed

lemma live_inv_step: "live_inv s \<Longrightarrow> live_inv (step tp re s ev)"
  by (cases ev)
    (simp_all add: live_inv_on_entry live_inv_on_close live_inv_on_error live_inv_on_cancel
      live_inv_on_settled)

lemma live_inv_run: "live_inv s \<Longrightarrow> live_inv (run tp re s evs)"
  unfolding run_def by (induction evs arbitrary: s) (simp_all add: live_inv_step)

lemma join_inv_step:
  "thr_inv s \<Longrightarrow> join_inv i s \<Longrightarrow> \<not> intervenes ev \<Longrightarrow> join_inv i (step tp re s ev)"
  by (cases ev) (simp_all add: join_inv_on_entry join_inv_on_close join_inv_on_settled)

lemma join_inv_run:
  "thr_inv s \<Longrightarrow> join_inv i s \<Longrightarrow> list_all (\<lambda>ev. \<not> intervenes ev) evs
   \<Longrightarrow> join_inv i (run tp re s evs)"
  unfolding run_def
  by (induction evs arbitrary: s) (simp_all add: join_inv_step thr_inv_step)

lemma run_Cons: "run tp re s (ev # evs) = run tp re (step tp re s ev) evs"
  by (simp add: run_def)

lemma run_append: "run tp re s (pre @ post) = run tp re (run tp re s pre) post"
  by (simp add: run_def)

lemma on_close_pending:
  assumes "promise s = Pending" "once_close s"
  shows "(last_op s = None \<longrightarrow> promise (on_close s) = Completed ())
     \<and> (last_op s = Some i \<and> i < length (ops s)
          \<and> (\<forall>j. op_state_of s j \<noteq> Some CancelledOp) \<longrightarrow> join_inv i (on_close s))"
  using assms
  by (auto simp add: on_close_def Let_def join_inv_def op_state_of_def
      split: option.splits op_state.splits)

text \<open>Evaluating the driver on a given sequence of events.\<close>

lemmas driver_eval =
  run_def init_def on_entry_def on_close_def on_error_def on_cancel_def on_settled_def
  cancel_handler_def cancel_op_def throttler_queue_def throttler_next_def set_op_state_def
  op_state_of_def Let_def test_def exec_def replace_empty_def ends_with_slash_def
  modeFromEntry_def

lemma run_mkdirp_failed:
  "run ''out'' (RegExp False []) init
     [EntryEv \<lparr>fileName = ''d/'', externalFileAttributes = 0\<rparr>,
      SettledEv 0 (Failure (Error ''EACCES''))]
   = \<lparr>isCanceled = False, last_op = Some 0, promise = Pending, once_error = True,
      once_close = True, joined = None,
      ops = [(MkdirpOp ''out'' ''d/'', Settled (Failure (Error ''EACCES'')))],
      thr_running = False, thr_queue = [], started = [],
      calls = [Mkdirp (Join ''out'' ''d/'')]\<rparr>"
  by (simp add: driver_eval)

subsection \<open>The close signal\<close>

text \<open>
  C3, as amended. Let the close signal arrive for the first time while the driver's
  promise is still pending, and let neither a cancellation nor an error of the archive
  follow it. If \<^verbatim>\<open>last\<close> is then the initial completed promise, the driver's promise
  completes. If \<^verbatim>\<open>last\<close> refers to operation \<open>i\<close>, the driver's promise is pending as long
  as \<open>i\<close> has not settled, completes when \<open>i\<close> succeeds, and fails with the error of \<open>i\<close>
  when \<open>i\<close> fails; the promise \<^verbatim>\<open>extractZip\<close> returns then fails with that error wrapped
  by \<^verbatim>\<open>toExtractError\<close>.
\<close>

theorem close_joins_last:
  assumes s: "s = run targetPath re init pre"
    and p: "promise s = Pending" and c: "once_close s"
    and post: "list_all (\<lambda>ev. \<not> intervenes ev) post"
    and t: "t = run targetPath re s (CloseEv # post)"
  shows "case last_op s of
           None \<Rightarrow> promise t = Completed ()
         | Some i \<Rightarrow>
             (case op_state_of t i of
                Some (Settled Success) \<Rightarrow>
                  promise t = Completed () \<and> wrap_errors (promise t) = Completed ()
              | Some (Settled (Failure err)) \<Rightarrow>
                  promise t = Failed err \<and> wrap_errors (promise t) = Failed (toExtractError err)
              | _ \<Rightarrow> promise t = Pending)"
proof (cases "last_op s")
  case None
  have "promise (on_close s) = Completed ()"
    using on_close_pending [OF p c] None by simp
  then have "promise t = Completed ()"
    by (simp add: t run_Cons promise_run_settled)
  then show ?thesis using None by simp
next
  case (Some i)
  have l: "live_inv s" unfolding s by (rule live_inv_run [OF live_inv_init])
  have th: "thr_inv s" unfolding s by (rule thr_inv_run [OF thr_inv_init])
  have "i < length (ops s)" "\<forall>j. op_state_of s j \<noteq> Some CancelledOp"
    using l Some p by (auto simp add: live_inv_def)
  then have "join_inv i (on_close s)"
    using on_close_pending [OF p c, of i] Some by simp
  moreover have "thr_inv (on_close s)" using th by (simp add: thr_inv_on_close)
  ultimately have "join_inv i t"
    unfolding t run_Cons by (simp add: join_inv_run [OF _ _ post])
  then show ?thesis
    using Some
    by (auto simp add: join_inv_def split: option.splits op_state.splits outcome.splits)
qed

text \<open>
  The claim as stated, for every extraction, fails when the promise has settled before
  the close signal: here a directory creation is scheduled and succeeds, the archive then
  emits an error and, after it, its close signal. At the close signal \<^verbatim>\<open>last\<close> refers to
  the directory creation, which has succeeded, yet the promise stays failed with the
  archive's error.
\<close>

theorem close_after_error:
  "last_op (run ''out'' (RegExp False []) init
      [EntryEv \<lparr>fileName = ''d/'', externalFileAttributes = 0\<rparr>, SettledEv 0 Success,
       ErrorEv (Error ''bad header'')]) = Some 0
   \<and> op_state_of (run ''out'' (RegExp False []) init
      [EntryEv \<lparr>fileName = ''d/'', externalFileAttributes = 0\<rparr>, SettledEv 0 Success,
       ErrorEv (Error ''bad header'')]) 0 = Some (Settled Success)
   \<and> promise (run ''out'' (RegExp False []) init
      [EntryEv \<lparr>fileName = ''d/'', externalFileAttributes = 0\<rparr>, SettledEv 0 Success,
       ErrorEv (Error ''bad header''), CloseEv]) = Failed (Error ''bad header'')
   \<and> promise (run ''out'' (RegExp False []) init
      [EntryEv \<lparr>fileName = ''d/'', externalFileAttributes = 0\<rparr>, SettledEv 0 Success,
       ErrorEv (Error ''bad header''), CloseEv]) \<noteq> Completed ()"
  by (simp add: driver_eval settle_def)

theorem close_joins_last_witness:
  "promise (run ''out'' (RegExp False []) init
      [EntryEv \<lparr>fileName = ''d/'', externalFileAttributes = 0\<rparr>, CloseEv,
       SettledEv 0 (Failure (Error ''EACCES''))]) = Failed (Error ''EACCES'')
   \<and> wrap_errors (promise (run ''out'' (RegExp False []) init
      [EntryEv \<lparr>fileName = ''d/'', externalFileAttributes = 0\<rparr>, CloseEv,
       SettledEv 0 (Failure (Error ''EACCES''))])) = Failed (toExtractError (Error ''EACCES''))
   \<and> promise (run ''out'' (RegExp False []) init
      [EntryEv \<lparr>fileName = ''d/'', externalFileAttributes = 0\<rparr>, CloseEv]) = Pending"
proof -
  let ?e = "EntryEv \<lparr>fileName = ''d/'', externalFileAttributes = 0\<rparr>"
  let ?s = "run ''out'' (RegExp False []) init [?e]"
  have s: "?s = \<lparr>isCanceled = False, last_op = Some 0, promise = Pending, once_error = True,
      once_close = True, joined = None, ops = [(MkdirpOp ''out'' ''d/'', Running)],
      thr_running = False, thr_queue = [], started = [],
      calls = [Mkdirp (Join ''out'' ''d/'')]\<rparr>"
    by (simp add: driver_eval)
  have p: "promise ?s = Pending" and c: "once_close ?s" and l: "last_op ?s = Some 0"
    by (simp_all add: s)
  have t1: "op_state_of (run ''out'' (RegExp False []) ?s
      (CloseEv # [SettledEv 0 (Failure (Error ''EACCES''))])) 0
      = Some (Settled (Failure (Error ''EACCES'')))"
    unfolding s by (simp add: driver_eval)
  have t2: "op_state_of (run ''out'' (RegExp False []) ?s (CloseEv # [])) 0 = Some Running"
    unfolding s by (simp add: driver_eval)
  have r1: "run ''out'' (RegExp False []) init [?e, CloseEv, SettledEv 0 (Failure (Error ''EACCES''))]
      = run ''out'' (RegExp False []) ?s (CloseEv # [SettledEv 0 (Failure (Error ''EACCES''))])"
    and r2: "run ''out'' (RegExp False []) init [?e, CloseEv]
      = run ''out'' (RegExp False []) ?s (CloseEv # [])"
    by (simp_all add: run_def)
  show ?thesis
    unfolding r1 r2
    using close_joins_last [OF refl p c _ refl, of "[SettledEv 0 (Failure (Error ''EACCES''))]"]
      close_joins_last [OF refl p c _ refl, of "[]"]
    by (simp add: l t1 t2)
qed

subsection \<open>The write throttler\<close>

lemma task_state_is_task: "task_state s i \<noteq> None \<longleftrightarrow> is_task s i"
  by (simp add: task_state_def is_task_def)

lemma length_le_one:
  assumes d: "distinct xs" and e: "\<And>x y. x \<in> set xs \<Longrightarrow> y \<in> set xs \<Longrightarrow> x = y"
  shows "length xs \<le> 1"
proof (cases xs)
  case Nil
  then show ?thesis by simp
next
  case (Cons a ys)
  show ?thesis
  proof (cases ys)
    case Nil
    then show ?thesis using Cons by simp
  next
    case (Cons b zs)
    have "a = b" by (rule e) (simp_all add: \<open>xs = a # ys\<close> Cons)
    moreover have "a \<noteq> b" using d by (simp add: \<open>xs = a # ys\<close> Cons)
    ultimately show ?thesis by simp
  qed
qed

lemma thr_inv_one_executing: "thr_inv s \<Longrightarrow> length (executing_tasks s) \<le> 1"
proof -
  assume inv: "thr_inv s"
  have u: "task_state s i = Some Running \<Longrightarrow> task_state s j = Some Running \<Longrightarrow> i = j" for i j
    using inv unfolding thr_inv_def by blast
  show ?thesis
    unfolding executing_tasks_def
  proof (rule length_le_one)
    show "distinct (filter (executing s) [0..<length (ops s)])" by simp
    fix x y
    assume "x \<in> set (filter (executing s) [0..<length (ops s)])"
      and "y \<in> set (filter (executing s) [0..<length (ops s)])"
    then show "x = y" using u by (simp add: executing_iff)
  qed
qed

lemma thr_inv_tasks:
  "thr_inv s \<Longrightarrow> list_all (is_task s) (started s @ thr_queue s)"
proof -
  assume inv: "thr_inv s"
  have a: "\<forall>i \<in> set (started s). task_state s i \<noteq> None"
    and b: "\<forall>i \<in> set (thr_queue s). task_state s i = Some Queued"
    using inv unfolding thr_inv_def by blast+
  show ?thesis
    using a b by (auto simp add: list_all_iff task_state_is_task [symmetric])
qed

lemma on_entry_directory:
  assumes "\<not> isCanceled s" "test re (fileName e)" "ends_with_slash (replace_empty (fileName e) re)"
  shows "thr_running (on_entry tp re e s) = thr_running s
     \<and> thr_queue (on_entry tp re e s) = thr_queue s
     \<and> started (on_entry tp re e s) = started s
     \<and> ops (on_entry tp re e s) = ops s @ [(MkdirpOp tp (replace_empty (fileName e) re), Running)]"
  using assms by (simp add: on_entry_def Let_def)

lemma on_entry_file:
  assumes "thr_inv s" "\<not> isCanceled s" "test re (fileName e)"
    "\<not> ends_with_slash (replace_empty (fileName e) re)"
  shows "started (on_entry tp re e s) @ thr_queue (on_entry tp re e s)
       = started s @ thr_queue s @ [length (ops s)]"
proof -
  have "\<not> thr_running s \<Longrightarrow> thr_queue s = []" using assms(1) by (simp add: thr_inv_def)
  then show ?thesis using assms(2-)
    by (simp add: on_entry_def Let_def throttler_queue_def)
qed

text \<open>
  C6. In every state the driver reaches, at most one file-write task is executing; the
  tasks started so far, followed by the tasks still queued, are in the order in which
  their entries arrived, and all of them are file extractions. A file entry is admitted
  at the end of that sequence. A directory entry leaves the throttler as it is: its
  directory creation runs at once.
\<close>

theorem one_writer_fifo:
  "let s = run targetPath re init evs;
       s' = run targetPath re init (evs @ [EntryEv e])
   in length (executing_tasks s) \<le> 1
      \<and> sorted_wrt (<) (started s @ thr_queue s)
      \<and> list_all (is_task s) (started s @ thr_queue s)
      \<and> (\<not> isCanceled s \<and> test re (fileName e)
           \<and> \<not> ends_with_slash (replace_empty (fileName e) re) \<longrightarrow>
           started s' @ thr_queue s' = started s @ thr_queue s @ [length (ops s)])
      \<and> (\<not> isCanceled s \<and> test re (fileName e)
           \<and> ends_with_slash (replace_empty (fileName e) re) \<longrightarrow>
           thr_running s' = thr_running s \<and> thr_queue s' = thr_queue s
           \<and> started s' = started s
           \<and> ops s' = ops s @ [(MkdirpOp targetPath (replace_empty (fileName e) re), Running)])"
proof -
  define s where "s = run targetPath re init evs"
  define s' where "s' = run targetPath re init (evs @ [EntryEv e])"
  have s': "s' = on_entry targetPath re e s"
    by (simp add: s'_def s_def run_def)
  have inv: "thr_inv s" unfolding s_def by (rule thr_inv_run [OF thr_inv_init])
  have a: "length (executing_tasks s) \<le> 1" by (rule thr_inv_one_executing [OF inv])
  have b: "sorted_wrt (<) (started s @ thr_queue s)" using inv by (simp add: thr_inv_def)
  have c: "list_all (is_task s) (started s @ thr_queue s)" by (rule thr_inv_tasks [OF inv])
  have d: "\<not> isCanceled s \<and> test re (fileName e)
           \<and> \<not> ends_with_slash (replace_empty (fileName e) re) \<longrightarrow>
           started s' @ thr_queue s' = started s @ thr_queue s @ [length (ops s)]"
    unfolding s' using on_entry_file [OF inv] by blast
  have e: "\<not> isCanceled s \<and> test re (fileName e)
           \<and> ends_with_slash (replace_empty (fileName e) re) \<longrightarrow>
           thr_running s' = thr_running s \<and> thr_queue s' = thr_queue s
           \<and> started s' = started s
           \<and> ops s' = ops s @ [(MkdirpOp targetPath (replace_empty (fileName e) re), Running)]"
    unfolding s' using on_entry_directory [of s re e targetPath] by blast
  show ?thesis
    unfolding Let_def s_def [symmetric] s'_def [symmetric]
    using a b c d e by blast
qed

theorem one_writer_fifo_witness:
  "length (executing_tasks (run ''out'' (RegExp False []) init
      [EntryEv \<lparr>fileName = ''a.txt'', externalFileAttributes = 0\<rparr>,
       EntryEv \<lparr>fileName = ''b.txt'', externalFileAttributes = 0\<rparr>])) \<le> 1
   \<and> started (run ''out'' (RegExp False []) init
      [EntryEv \<lparr>fileName = ''a.txt'', externalFileAttributes = 0\<rparr>,
       EntryEv \<lparr>fileName = ''b.txt'', externalFileAttributes = 0\<rparr>,
       EntryEv \<lparr>fileName = ''c.txt'', externalFileAttributes = 0\<rparr>])
     @ thr_queue (run ''out'' (RegExp False []) init
      [EntryEv \<lparr>fileName = ''a.txt'', externalFileAttributes = 0\<rparr>,
       EntryEv \<lparr>fileName = ''b.txt'', externalFileAttributes = 0\<rparr>,
       EntryEv \<lparr>fileName = ''c.txt'', externalFileAttributes = 0\<rparr>]) = [0, 1, 2]
   \<and> thr_queue (run ''out'' (RegExp False []) init
      [EntryEv \<lparr>fileName = ''a.txt'', externalFileAttributes = 0\<rparr>,
       EntryEv \<lparr>fileName = ''b.txt'', externalFileAttributes = 0\<rparr>,
       EntryEv \<lparr>fileName = ''d/'', externalFileAttributes = 0\<rparr>]) = [1]
   \<and> started (run ''out'' (RegExp False []) init
      [EntryEv \<lparr>fileName = ''a.txt'', externalFileAttributes = 0\<rparr>,
       EntryEv \<lparr>fileName = ''b.txt'', externalFileAttributes = 0\<rparr>,
       EntryEv \<lparr>fileName = ''d/'', externalFileAttributes = 0\<rparr>]) = [0]"
proof -
  let ?a = "EntryEv \<lparr>fileName = ''a.txt'', externalFileAttributes = 0\<rparr>"
  let ?b = "EntryEv \<lparr>fileName = ''b.txt'', externalFileAttributes = 0\<rparr>"
  let ?s = "run ''out'' (RegExp False []) init [?a, ?b]"
  have s: "?s = \<lparr>isCanceled = False, last_op = Some 1, promise = Pending, once_error = True,
      once_close = True, joined = None,
      ops = [(ExtractOp ''a.txt'' 33188 ''out'', Running),
             (ExtractOp ''b.txt'' 33188 ''out'', Queued)],
      thr_running = True, thr_queue = [1], started = [0],
      calls = [OpenReadStream ''a.txt'', ThrottlerQueue ''a.txt'' 33188,
               OpenReadStream ''b.txt'', ThrottlerQueue ''b.txt'' 33188]\<rparr>"
    by (simp add: driver_eval)
  have f: "\<not> isCanceled ?s" "started ?s = [0]" "thr_queue ?s = [1]" "length (ops ?s) = 2"
    by (simp_all add: s)
  have m: "test (RegExp False []) ''c.txt''"
    "\<not> ends_with_slash (replace_empty ''c.txt'' (RegExp False []))"
    "test (RegExp False []) ''d/''"
    "ends_with_slash (replace_empty ''d/'' (RegExp False []))"
    by (simp_all add: test_def exec_def replace_empty_def ends_with_slash_def)
  show ?thesis
    using one_writer_fifo [of "''out''" "RegExp False []" "[?a, ?b]"
        "\<lparr>fileName = ''c.txt'', externalFileAttributes = 0\<rparr>"]
      one_writer_fifo [of "''out''" "RegExp False []" "[?a, ?b]"
        "\<lparr>fileName = ''d/'', externalFileAttributes = 0\<rparr>"]
    by (simp add: Let_def f m)
qed

subsection \<open>Cancellation\<close>

lemma length_ops_on_settled [simp]: "length (ops (on_settled i out s)) = length (ops s)"
  by (simp add: on_settled_def Let_def)

lemma length_ops_on_close [simp]: "length (ops (on_close s)) = length (ops s)"
  by (simp add: on_close_def Let_def split: option.splits op_state.splits)

lemma isCanceled_on_settled [simp]: "isCanceled (on_settled i out s) = isCanceled s"
  by (simp add: on_settled_def Let_def)

lemma isCanceled_on_close [simp]: "isCanceled (on_close s) = isCanceled s"
  by (simp add: on_close_def Let_def split: option.splits op_state.splits)

lemma cancelled_step:
  assumes "isCanceled s" "promise s \<noteq> Pending"
  shows "isCanceled (step tp re s ev) \<and> calls (step tp re s ev) = calls s
     \<and> length (ops (step tp re s ev)) = length (ops s)"
  using assms
  by (cases ev) (simp_all add: on_entry_def on_error_def on_cancel_def)

lemma cancelled_run:
  assumes "isCanceled s" "promise s \<noteq> Pending"
  shows "isCanceled (run tp re s evs) \<and> calls (run tp re s evs) = calls s
     \<and> length (ops (run tp re s evs)) = length (ops s)"
  using assms
proof (induction evs arbitrary: s)
  case Nil
  then show ?case by (simp add: run_def)
next
  case (Cons ev evs)
  have a: "isCanceled (step tp re s ev)" "calls (step tp re s ev) = calls s"
    "length (ops (step tp re s ev)) = length (ops s)"
    using cancelled_step [OF Cons.prems] by simp_all
  have b: "promise (step tp re s ev) \<noteq> Pending"
    using Cons.prems(2) by (simp add: promise_step_settled)
  show ?case using Cons.IH [OF a(1) b] a by (simp add: run_Cons)
qed

lemma on_cancel_pending:
  assumes "promise s = Pending"
  shows "isCanceled (on_cancel s) \<and> promise (on_cancel s) = Cancelled
     \<and> calls (on_cancel s) = calls s @ [CancelLast (last_op s), ZipfileClose]"
  using assms by (simp add: on_cancel_def cancel_handler_def Let_def)

lemma op_state_of_cancel_op:
  assumes inv: "thr_inv s" and i: "i < length (ops s)"
  shows "op_state_of (cancel_op (Some i) s) i =
     (case op_state_of s i of Some (Settled out) \<Rightarrow> Some (Settled out) | _ \<Rightarrow> Some CancelledOp)"
proof -
  have q: "\<forall>m \<in> set (thr_queue s). op_state_of s m = Some Queued"
    using inv unfolding thr_inv_def by (blast dest: task_state_op_state)
  obtain x where x: "op_state_of s i = Some x" using i by (simp add: op_state_of_def)
  show ?thesis
  proof (cases x)
    case Queued
    have "op_state_of ((set_op_state i CancelledOp s)\<lparr>thr_queue := removeAll i (thr_queue s)\<rparr>) i
        = op_state_of (set_op_state i CancelledOp s) i"
      by (simp add: op_state_of_def)
    then show ?thesis using x Queued by (simp add: cancel_op_def op_state_of_set_op_state)
  next
    case Running
    have n: "thr_queue s = j # q' \<Longrightarrow> j \<noteq> i" for j q'
      using q x Running by auto
    have "op_state_of (throttler_next (set_op_state i CancelledOp s)) i = Some CancelledOp"
      using x n
      by (auto simp add: op_state_of_throttler_next op_state_of_set_op_state split: list.splits)
    then show ?thesis using x Running
      by (simp add: cancel_op_def Let_def op_state_of_set_op_state)
  next
    case (Settled out)
    then show ?thesis using x by (simp add: cancel_op_def)
  next
    case CancelledOp
    then show ?thesis using x by (simp add: cancel_op_def)
  qed
qed

lemma op_state_of_on_cancel:
  assumes inv: "thr_inv s" and p: "promise s = Pending" and l: "last_op s = Some i"
    and i: "i < length (ops s)"
  shows "op_state_of (on_cancel s) i =
     (case op_state_of s i of Some (Settled out) \<Rightarrow> Some (Settled out) | _ \<Rightarrow> Some CancelledOp)"
proof -
  define s1 where "s1 = s\<lparr>promise := Cancelled, isCanceled := True,
      calls := calls s @ [CancelLast (last_op s)]\<rparr>"
  have "thr_inv s1 = thr_inv s" by (rule thr_inv_fields) (simp_all add: s1_def)
  then have inv1: "thr_inv s1" using inv by simp
  have o: "op_state_of s1 m = op_state_of s m" for m by (simp add: s1_def op_state_of_def)
  have i1: "i < length (ops s1)" using i by (simp add: s1_def)
  have r: "on_cancel s = (cancel_op (Some i) s1)\<lparr>calls := calls (cancel_op (Some i) s1) @ [ZipfileClose]\<rparr>"
    using p l by (simp add: on_cancel_def cancel_handler_def Let_def s1_def)
  have "op_state_of (on_cancel s) i = op_state_of (cancel_op (Some i) s1) i"
    unfolding r by (simp add: op_state_of_def)
  then show ?thesis using op_state_of_cancel_op [OF inv1 i1] by (simp add: o)
qed

text \<open>
  C7. When an extraction is cancelled while its promise is pending: \<^verbatim>\<open>isCanceled\<close> is
  set and the promise ends cancelled; \<^verbatim>\<open>last.cancel()\<close> and \<^verbatim>\<open>zipfile.close()\<close> are
  called, in this order; the operation \<^verbatim>\<open>last\<close> refers to is cancelled unless it had
  settled; and whatever happens afterwards, no call is made and no operation is
  scheduled: neither a directory creation, nor the opening of a read stream, nor a
  throttled extraction. In the entry extractor, a cancellation that finds the write
  stream assigned and the promise pending closes the write stream and leaves the promise
  cancelled.
\<close>

theorem cancel_stops_scheduling:
  assumes s: "s = run targetPath re init pre" and p: "promise s = Pending"
    and s': "s' = step targetPath re s CancelEv"
    and t: "t = run targetPath re s' post"
  shows "isCanceled s' \<and> promise s' = Cancelled
     \<and> calls s' = calls s @ [CancelLast (last_op s), ZipfileClose]
     \<and> (case last_op s of
          None \<Rightarrow> True
        | Some i \<Rightarrow>
            op_state_of s' i =
              (case op_state_of s i of
                 Some (Settled out) \<Rightarrow> Some (Settled out)
               | _ \<Rightarrow> Some CancelledOp))
     \<and> isCanceled t \<and> promise t = Cancelled \<and> calls t = calls s'
     \<and> length (ops t) = length (ops s')
     \<and> (istream x \<and> result x = Pending \<longrightarrow>
          e_calls (entry_step name mode targetPath x CancelEntry) = e_calls x @ [IstreamClose]
          \<and> result (entry_step name mode targetPath x CancelEntry) = Cancelled)"
proof -
  have l: "live_inv s" unfolding s by (rule live_inv_run [OF live_inv_init])
  have th: "thr_inv s" unfolding s by (rule thr_inv_run [OF thr_inv_init])
  have a: "isCanceled s'" "promise s' = Cancelled"
    "calls s' = calls s @ [CancelLast (last_op s), ZipfileClose]"
    using on_cancel_pending [OF p] by (simp_all add: s')
  have b: "case last_op s of
          None \<Rightarrow> True
        | Some i \<Rightarrow>
            op_state_of s' i =
              (case op_state_of s i of
                 Some (Settled out) \<Rightarrow> Some (Settled out)
               | _ \<Rightarrow> Some CancelledOp)"
  proof (cases "last_op s")
    case None
    then show ?thesis by simp
  next
    case (Some i)
    then have "i < length (ops s)" using l by (simp add: live_inv_def)
    then show ?thesis using Some op_state_of_on_cancel [OF th p Some] by (simp add: s')
  qed
  have np: "promise s' \<noteq> Pending" using a by simp
  have c: "isCanceled t" "calls t = calls s'" "length (ops t) = length (ops s')"
    using cancelled_run [OF a(1) np] by (simp_all add: t)
  have d: "promise t = Cancelled" using a np by (simp add: t promise_run_settled)
  have e: "istream x \<and> result x = Pending \<longrightarrow>
          e_calls (entry_step name mode targetPath x CancelEntry) = e_calls x @ [IstreamClose]
          \<and> result (entry_step name mode targetPath x CancelEntry) = Cancelled"
    by (simp add: Let_def)
  show ?thesis using a b c d e by blast
qed

theorem cancel_stops_scheduling_witness:
  "calls (run ''out'' (RegExp False []) init
      [EntryEv \<lparr>fileName = ''a.txt'', externalFileAttributes = 0\<rparr>,
       EntryEv \<lparr>fileName = ''b.txt'', externalFileAttributes = 0\<rparr>,
       CancelEv,
       EntryEv \<lparr>fileName = ''c.txt'', externalFileAttributes = 0\<rparr>,
       EntryEv \<lparr>fileName = ''d/'', externalFileAttributes = 0\<rparr>])
     = [OpenReadStream ''a.txt'', ThrottlerQueue ''a.txt'' 33188,
        OpenReadStream ''b.txt'', ThrottlerQueue ''b.txt'' 33188,
        CancelLast (Some 1), ZipfileClose]
   \<and> length (ops (run ''out'' (RegExp False []) init
      [EntryEv \<lparr>fileName = ''a.txt'', externalFileAttributes = 0\<rparr>,
       EntryEv \<lparr>fileName = ''b.txt'', externalFileAttributes = 0\<rparr>,
       CancelEv,
       EntryEv \<lparr>fileName = ''c.txt'', externalFileAttributes = 0\<rparr>,
       EntryEv \<lparr>fileName = ''d/'', externalFileAttributes = 0\<rparr>])) = 2
   \<and> op_state_of (run ''out'' (RegExp False []) init
      [EntryEv \<lparr>fileName = ''a.txt'', externalFileAttributes = 0\<rparr>,
       EntryEv \<lparr>fileName = ''b.txt'', externalFileAttributes = 0\<rparr>,
       CancelEv]) 1 = Some CancelledOp
   \<and> e_calls (entry_run ''a.txt'' 33188 ''out'' (extractEntry ''a.txt'' 33188 ''out'')
        [MkdirpEnds Success, CancelEntry])
     = [Mkdirp (JoinDirname ''out'' ''a.txt''),
        CreateWriteStream (Join ''out'' ''a.txt'') 33188, Pipe, IstreamClose]"
proof -
  let ?a = "EntryEv \<lparr>fileName = ''a.txt'', externalFileAttributes = 0\<rparr>"
  let ?b = "EntryEv \<lparr>fileName = ''b.txt'', externalFileAttributes = 0\<rparr>"
  let ?c = "EntryEv \<lparr>fileName = ''c.txt'', externalFileAttributes = 0\<rparr>"
  let ?d = "EntryEv \<lparr>fileName = ''d/'', externalFileAttributes = 0\<rparr>"
  let ?s = "run ''out'' (RegExp False []) init [?a, ?b]"
  let ?x = "entry_step ''a.txt'' 33188 ''out'' (extractEntry ''a.txt'' 33188 ''out'')
      (MkdirpEnds Success)"
  have s: "?s = \<lparr>isCanceled = False, last_op = Some 1, promise = Pending, once_error = True,
      once_close = True, joined = None,
      ops = [(ExtractOp ''a.txt'' 33188 ''out'', Running),
             (ExtractOp ''b.txt'' 33188 ''out'', Queued)],
      thr_running = True, thr_queue = [1], started = [0],
      calls = [OpenReadStream ''a.txt'', ThrottlerQueue ''a.txt'' 33188,
               OpenReadStream ''b.txt'', ThrottlerQueue ''b.txt'' 33188]\<rparr>"
    by (simp add: driver_eval)
  have p: "promise ?s = Pending" by (simp add: s)
  have f: "calls ?s = [OpenReadStream ''a.txt'', ThrottlerQueue ''a.txt'' 33188,
               OpenReadStream ''b.txt'', ThrottlerQueue ''b.txt'' 33188]"
    "last_op ?s = Some (Suc 0)" "op_state_of ?s (Suc 0) = Some Queued" "length (ops ?s) = 2"
    by (simp_all add: s op_state_of_def)
  have x: "istream ?x" "result ?x = Pending"
    "e_calls ?x = [Mkdirp (JoinDirname ''out'' ''a.txt''),
        CreateWriteStream (Join ''out'' ''a.txt'') 33188, Pipe]"
    by (simp_all add: extractEntry_def)
  have r: "run ''out'' (RegExp False []) init [?a, ?b, CancelEv, ?c, ?d]
      = run ''out'' (RegExp False []) (step ''out'' (RegExp False []) ?s CancelEv) [?c, ?d]"
    "run ''out'' (RegExp False []) init [?a, ?b, CancelEv]
      = step ''out'' (RegExp False []) ?s CancelEv"
    "entry_run ''a.txt'' 33188 ''out'' (extractEntry ''a.txt'' 33188 ''out'')
        [MkdirpEnds Success, CancelEntry]
      = entry_step ''a.txt'' 33188 ''out'' ?x CancelEntry"
    by (simp_all add: run_def entry_run_def)
  define s' where "s' = step ''out'' (RegExp False []) ?s CancelEv"
  define t where "t = run ''out'' (RegExp False []) s' [?c, ?d]"
  define y where "y = entry_step ''a.txt'' 33188 ''out'' ?x CancelEntry"
  have l: "length (ops s') = 2"
    by (simp add: s'_def on_cancel_def cancel_handler_def Let_def f)
  note th = cancel_stops_scheduling [OF refl p s'_def t_def, of ?x "''a.txt''" 33188]
  have "calls s' = calls ?s @ [CancelLast (last_op ?s), ZipfileClose]" using th by blast
  moreover have "calls t = calls s'" using th by blast
  ultimately have c1: "calls t = [OpenReadStream ''a.txt'', ThrottlerQueue ''a.txt'' 33188,
        OpenReadStream ''b.txt'', ThrottlerQueue ''b.txt'' 33188,
        CancelLast (Some 1), ZipfileClose]"
    by (simp add: f)
  have "length (ops t) = length (ops s')" using th by blast
  then have c2: "length (ops t) = 2" using l by simp
  have "case last_op ?s of
          None \<Rightarrow> True
        | Some i \<Rightarrow>
            op_state_of s' i =
              (case op_state_of ?s i of
                 Some (Settled out) \<Rightarrow> Some (Settled out)
               | _ \<Rightarrow> Some CancelledOp)"
    using th by blast
  then have c3: "op_state_of s' 1 = Some CancelledOp" by (simp add: f)
  have "istream ?x \<and> result ?x = Pending \<longrightarrow>
          e_calls (entry_step ''a.txt'' 33188 ''out'' ?x CancelEntry) = e_calls ?x @ [IstreamClose]"
    using th by blast
  then have c4: "e_calls y = [Mkdirp (JoinDirname ''out'' ''a.txt''),
        CreateWriteStream (Join ''out'' ''a.txt'') 33188, Pipe, IstreamClose]"
    unfolding y_def using x by simp
  show ?thesis
    unfolding r s'_def [symmetric] t_def [symmetric] y_def [symmetric]
    using c1 c2 c3 c4 by blast
qed

subsection \<open>Errors of an extraction\<close>

lemma extract'_driver:
  assumes "sourcePathRegex (sourcePath options) = Some re" "open_error env = None"
    "overwrite options \<longrightarrow> rimraf_outcome env = Success"
  shows "\<exists>cs. extract' zipPath targetPath options env
       = Some (cs, wrap_errors (promise (run targetPath re init (events env))))"
  using assms
  by (auto simp add: extract'_def openZip_def extractZip_def Let_def split: prod.splits)

lemma op_state_of_upd [simp]:
  "op_state_of (s\<lparr>once_close := b\<rparr>) i = op_state_of s i"
  "op_state_of (s\<lparr>once_error := b\<rparr>) i = op_state_of s i"
  "op_state_of (s\<lparr>promise := p\<rparr>) i = op_state_of s i"
  "op_state_of (s\<lparr>joined := j\<rparr>) i = op_state_of s i"
  "op_state_of (s\<lparr>calls := cs\<rparr>) i = op_state_of s i"
  "op_state_of (s\<lparr>isCanceled := b\<rparr>) i = op_state_of s i"
  "op_state_of (s\<lparr>last_op := l\<rparr>) i = op_state_of s i"
  by (simp_all add: op_state_of_def)

lemma on_close_failed:
  assumes "promise s = Pending" "once_close s" "last_op s = Some i"
    "op_state_of s i = Some (Settled (Failure err))"
  shows "promise (on_close s) = Failed err"
  using assms by (simp add: on_close_def Let_def)

lemma on_error_pending:
  assumes "promise s = Pending" "once_error s"
  shows "promise (on_error err s) = Failed err"
  using assms by (simp add: on_error_def)

text \<open>
  C1, as amended. Every failure of the promise \<^verbatim>\<open>extract\<close> returns is an
  \<^verbatim>\<open>ExtractError\<close> of type \<^verbatim>\<open>CorruptZip\<close> built by \<^verbatim>\<open>toExtractError\<close> from its cause, or
  the raw error of the overwrite deletion. When the operation \<^verbatim>\<open>last\<close> refers to has
  failed and the close signal finds the promise pending, \<^verbatim>\<open>extract\<close> fails with that
  filesystem error wrapped by \<^verbatim>\<open>toExtractError\<close>; an error of the archive that finds the
  promise pending and a failure to open the archive are wrapped in the same way.
\<close>

theorem extract_rejections_wrapped:
  assumes re: "sourcePathRegex (sourcePath options) = Some re"
    and s: "s = run targetPath re init pre"
  shows "(extract' zipPath targetPath options env = Some (cs, Failed x) \<longrightarrow>
            x = toExtractError (cause x) \<and> type x = CorruptZip
            \<or> overwrite options \<and> open_error env = None \<and> rimraf_outcome env = Failure x)
     \<and> (open_error env = None \<and> (overwrite options \<longrightarrow> rimraf_outcome env = Success)
          \<and> events env = pre @ CloseEv # post
          \<and> promise s = Pending \<and> once_close s \<and> last_op s = Some i
          \<and> op_state_of s i = Some (Settled (Failure err)) \<longrightarrow>
          (\<exists>cs'. extract' zipPath targetPath options env
                   = Some (cs', Failed (toExtractError err))))
     \<and> (open_error env = None \<and> (overwrite options \<longrightarrow> rimraf_outcome env = Success)
          \<and> events env = pre @ ErrorEv err # post
          \<and> promise s = Pending \<and> once_error s \<longrightarrow>
          (\<exists>cs'. extract' zipPath targetPath options env
                   = Some (cs', Failed (toExtractError err))))
     \<and> (open_error env = Some err \<longrightarrow>
          extract' zipPath targetPath options env
            = Some ([OpenZip zipPath], Failed (toExtractError err)))"
proof -
  have a: "extract' zipPath targetPath options env = Some (cs, Failed x) \<longrightarrow>
            x = toExtractError (cause x) \<and> type x = CorruptZip
            \<or> overwrite options \<and> open_error env = None \<and> rimraf_outcome env = Failure x"
  proof
    assume e: "extract' zipPath targetPath options env = Some (cs, Failed x)"
    have w: "wrap_errors p = Failed x \<Longrightarrow> x = toExtractError (cause x) \<and> type x = CorruptZip" for p
      by (cases p) (auto simp add: toExtractError_eq)
    show "x = toExtractError (cause x) \<and> type x = CorruptZip
            \<or> overwrite options \<and> open_error env = None \<and> rimraf_outcome env = Failure x"
    proof (cases "open_error env")
      case (Some e')
      then have "extract' zipPath targetPath options env
          = Some ([OpenZip zipPath], Failed (toExtractError e'))"
        using re by (simp add: extract'_def openZip_def)
      then have "x = toExtractError e'" using e by simp
      then show ?thesis by (simp add: toExtractError_eq)
    next
      case None
      show ?thesis
      proof (cases "overwrite options \<and> rimraf_outcome env \<noteq> Success")
        case True
        then obtain y where y: "rimraf_outcome env = Failure y" by (cases "rimraf_outcome env") auto
        then have "extract' zipPath targetPath options env
          = Some ([OpenZip zipPath, Rimraf targetPath], Failed y)"
          using re None True by (simp add: extract'_def openZip_def)
        then have "x = y" using e by simp
        then show ?thesis using True None y by simp
      next
        case False
        then have "overwrite options \<longrightarrow> rimraf_outcome env = Success" by blast
        from extract'_driver [OF re None this, of zipPath targetPath]
        have "wrap_errors (promise (run targetPath re init (events env))) = Failed x"
          using e by auto
        then show ?thesis using w by blast
      qed
    qed
  qed
  have b: "open_error env = None \<and> (overwrite options \<longrightarrow> rimraf_outcome env = Success)
          \<and> events env = pre @ CloseEv # post
          \<and> promise s = Pending \<and> once_close s \<and> last_op s = Some i
          \<and> op_state_of s i = Some (Settled (Failure err)) \<longrightarrow>
          (\<exists>cs'. extract' zipPath targetPath options env
                   = Some (cs', Failed (toExtractError err)))"
  proof
    assume h: "open_error env = None \<and> (overwrite options \<longrightarrow> rimraf_outcome env = Success)
          \<and> events env = pre @ CloseEv # post
          \<and> promise s = Pending \<and> once_close s \<and> last_op s = Some i
          \<and> op_state_of s i = Some (Settled (Failure err))"
    then have "promise (on_close s) = Failed err" by (simp add: on_close_failed)
    then have "promise (run targetPath re init (events env)) = Failed err"
      using h by (simp add: run_append run_Cons s [symmetric] promise_run_settled)
    then show "\<exists>cs'. extract' zipPath targetPath options env
                   = Some (cs', Failed (toExtractError err))"
      using extract'_driver [OF re, of env zipPath targetPath] h by simp
  qed
  have c: "open_error env = None \<and> (overwrite options \<longrightarrow> rimraf_outcome env = Success)
          \<and> events env = pre @ ErrorEv err # post
          \<and> promise s = Pending \<and> once_error s \<longrightarrow>
          (\<exists>cs'. extract' zipPath targetPath options env
                   = Some (cs', Failed (toExtractError err)))"
  proof
    assume h: "open_error env = None \<and> (overwrite options \<longrightarrow> rimraf_outcome env = Success)
          \<and> events env = pre @ ErrorEv err # post
          \<and> promise s = Pending \<and> once_error s"
    then have "promise (on_error err s) = Failed err" by (simp add: on_error_pending)
    then have "promise (run targetPath re init (events env)) = Failed err"
      using h by (simp add: run_append run_Cons s [symmetric] promise_run_settled)
    then show "\<exists>cs'. extract' zipPath targetPath options env
                   = Some (cs', Failed (toExtractError err))"
      using extract'_driver [OF re, of env zipPath targetPath] h by simp
  qed
  have d: "open_error env = Some err \<longrightarrow>
          extract' zipPath targetPath options env
            = Some ([OpenZip zipPath], Failed (toExtractError err))"
    using re by (simp add: extract'_def openZip_def)
  show ?thesis using a b c d by blast
qed

text \<open>
  The claim as stated fails: the error of a failed directory creation does not reach
  the caller as it is, but as the cause of an \<^verbatim>\<open>ExtractError\<close> of type \<^verbatim>\<open>CorruptZip\<close>.
\<close>

theorem filesystem_error_wrapped:
  "extract' ''a.zip'' ''out'' \<lparr>overwrite = False, sourcePath = None\<rparr>
     \<lparr>open_error = None, rimraf_outcome = Success,
      events = [EntryEv \<lparr>fileName = ''d/'', externalFileAttributes = 0\<rparr>,
                SettledEv 0 (Failure (Error ''EACCES'')), CloseEv]\<rparr>
     = Some ([OpenZip ''a.zip'', Mkdirp (Join ''out'' ''d/'')],
         Failed (ExtractError CorruptZip ''Corrupt ZIP: EACCES'' (Error ''EACCES'')))
   \<and> Failed (ExtractError CorruptZip ''Corrupt ZIP: EACCES'' (Error ''EACCES''))
       \<noteq> (Failed (Error ''EACCES'') :: unit promise)"
  by (simp add: extract'_def openZip_def sourcePathRegex_def new_RegExp_def extractZip_def
      toExtractError_eq driver_eval)

theorem extract_rejections_wrapped_witness:
  "(\<exists>cs'. extract' ''a.zip'' ''out'' \<lparr>overwrite = False, sourcePath = None\<rparr>
     \<lparr>open_error = None, rimraf_outcome = Success,
      events = [EntryEv \<lparr>fileName = ''d/'', externalFileAttributes = 0\<rparr>,
                SettledEv 0 (Failure (Error ''EACCES'')), CloseEv]\<rparr>
     = Some (cs', Failed (toExtractError (Error ''EACCES''))))
   \<and> (\<exists>cs'. extract' ''a.zip'' ''out'' \<lparr>overwrite = False, sourcePath = None\<rparr>
     \<lparr>open_error = None, rimraf_outcome = Success,
      events = [EntryEv \<lparr>fileName = ''d/'', externalFileAttributes = 0\<rparr>,
                SettledEv 0 (Failure (Error ''EACCES'')), ErrorEv (Error ''bad header'')]\<rparr>
     = Some (cs', Failed (toExtractError (Error ''bad header''))))"
proof -
  let ?pre = "[EntryEv \<lparr>fileName = ''d/'', externalFileAttributes = 0\<rparr>,
      SettledEv 0 (Failure (Error ''EACCES''))]"
  let ?opts = "\<lparr>overwrite = False, sourcePath = None\<rparr>"
  let ?s = "run ''out'' (RegExp False []) init ?pre"
  have re: "sourcePathRegex (sourcePath ?opts) = Some (RegExp False [])"
    by (simp add: sourcePathRegex_def new_RegExp_def)
  have s: "promise ?s = Pending" "once_close ?s" "once_error ?s" "last_op ?s = Some 0"
    "op_state_of ?s 0 = Some (Settled (Failure (Error ''EACCES'')))"
    by (simp_all add: run_mkdirp_failed) (simp add: op_state_of_def)
  show ?thesis
    using extract_rejections_wrapped [OF re refl, of "''a.zip''" "''out''"
        "\<lparr>open_error = None, rimraf_outcome = Success, events = ?pre @ [CloseEv]\<rparr>"
        "[]" "Error []" "?pre" "[]" 0 "Error ''EACCES''"]
      extract_rejections_wrapped [OF re refl, of "''a.zip''" "''out''"
        "\<lparr>open_error = None, rimraf_outcome = Success,
          events = ?pre @ [ErrorEv (Error ''bad header'')]\<rparr>"
        "[]" "Error []" "?pre" "[]" 0 "Error ''bad header''"]
      s
    by simp
qed

end
